theory Spec2Isabelle
  imports Main "HOL-Library.Word"
begin

section \<open>Data model\<close>

text \<open>
  The embedding follows \<^verbatim>\<open>src/src/VL53L1XZoneMonitor.h\<close> and
  \<^verbatim>\<open>src/src/VL53L1XZoneMonitor.cpp\<close>.

  \<^item> \<^verbatim>\<open>uint16_t\<close> is \<open>16 word\<close>, \<^verbatim>\<open>uint32_t\<close> is \<open>32 word\<close>.
  \<^item> \<^verbatim>\<open>size_t\<close> counters and thresholds are \<open>'s word\<close> for an arbitrary width
    \<open>'s\<close>: the width of \<^verbatim>\<open>size_t\<close> depends on the target, and \<^verbatim>\<open>++\<close> wraps.
  \<^item> A \<^verbatim>\<open>size_t\<close> used as an index is only ever compared with \<^verbatim>\<open>zones.size()\<close>,
    so indices and sizes are \<open>nat\<close>.
  \<^item> A callback is a nullable function pointer: \<open>None\<close> is \<^verbatim>\<open>nullptr\<close>,
    \<open>Some f\<close> is the function with identity \<open>f\<close>. Calling it is recorded in an
    event log; a callback is assumed not to touch the monitor.
  \<^item> The sensor driver and \<^verbatim>\<open>millis()\<close> are external: what they return is an
    argument of the operation that calls them, and each call of the sensor is
    recorded in the event log. In a trace of calls, the log also holds the result
    that \<^verbatim>\<open>isObjectInZone\<close> returns to its caller.
\<close>

datatype event =
    DataReady bool
  | SensorRead "16 word"
  | OnEnter nat "16 word"
  | OnExit nat
  | Returned bool

record (overloaded) 's ZoneObserver =
  min_distance :: "16 word"
  max_distance :: "16 word"
  object_present :: bool
  on_enter :: "nat option"
  on_exit :: "nat option"
  in_zone_count :: "'s word"
  out_zone_count :: "'s word"

record (overloaded) 's VL53L1XZoneMonitor =
  zones :: "'s ZoneObserver list"
  update_interval_ms :: "32 word"
  last_update_time :: "32 word"
  certainty_factor :: "'s word"

section \<open>ZoneObserver\<close>

definition ZoneObserver_ctor ::
  "16 word \<Rightarrow> 16 word \<Rightarrow> nat option \<Rightarrow> nat option \<Rightarrow> ('s::len) ZoneObserver" where
  "ZoneObserver_ctor mn mx onEnter onExit =
     \<lparr> min_distance = mn, max_distance = mx, object_present = False,
       on_enter = onEnter, on_exit = onExit,
       in_zone_count = 0, out_zone_count = 0 \<rparr>"

definition evaluate ::
  "('s::len) ZoneObserver \<Rightarrow> 16 word \<Rightarrow> 's word \<Rightarrow> 's ZoneObserver \<times> event list" where
  "evaluate z distance certainty =
     (let in_zone = (distance \<ge> min_distance z \<and> distance \<le> max_distance z) in
      if in_zone then
        (let z1 = z\<lparr>in_zone_count := in_zone_count z + 1\<rparr>;
             z2 = z1\<lparr>out_zone_count := 0\<rparr> in
         if in_zone_count z2 \<ge> certainty \<and> \<not> object_present z2 then
           (z2\<lparr>object_present := True\<rparr>,
            case on_enter z2 of None \<Rightarrow> [] | Some f \<Rightarrow> [OnEnter f distance])
         else (z2, []))
      else
        (let z1 = z\<lparr>out_zone_count := out_zone_count z + 1\<rparr>;
             z2 = z1\<lparr>in_zone_count := 0\<rparr> in
         if out_zone_count z2 \<ge> certainty \<and> object_present z2 then
           (z2\<lparr>object_present := False\<rparr>,
            case on_exit z2 of None \<Rightarrow> [] | Some g \<Rightarrow> [OnExit g])
         else (z2, [])))"

definition isObjectPresent :: "'s ZoneObserver \<Rightarrow> bool" where
  "isObjectPresent z = object_present z"

text \<open>
  A zone driven by a sequence of \<^verbatim>\<open>evaluate\<close> calls, each with its own sample and
  certainty; the callback invocations are collected in call order.
\<close>

fun evaluate_seq ::
  "('s::len) ZoneObserver \<Rightarrow> (16 word \<times> 's word) list \<Rightarrow> 's ZoneObserver \<times> event list" where
  "evaluate_seq z [] = (z, [])"
| "evaluate_seq z ((d, n) # calls) =
     (let (z1, e1) = evaluate z d n;
          (z2, e2) = evaluate_seq z1 calls
      in (z2, e1 @ e2))"


section \<open>VL53L1XZoneMonitor\<close>

definition VL53L1XZoneMonitor_ctor :: "32 word \<Rightarrow> ('s::len) word \<Rightarrow> 's VL53L1XZoneMonitor" where
  "VL53L1XZoneMonitor_ctor interval_ms certainty =
     \<lparr> zones = [], update_interval_ms = interval_ms, last_update_time = 0,
       certainty_factor = certainty \<rparr>"

definition addZone ::
  "('s::len) VL53L1XZoneMonitor \<Rightarrow> 16 word \<Rightarrow> 16 word \<Rightarrow> nat option \<Rightarrow> nat option
     \<Rightarrow> 's VL53L1XZoneMonitor" where
  "addZone m mn mx onEnter onExit =
     m\<lparr>zones := zones m @ [ZoneObserver_ctor mn mx onEnter onExit]\<rparr>"

definition getZoneCount :: "'s VL53L1XZoneMonitor \<Rightarrow> nat" where
  "getZoneCount m = length (zones m)"

text \<open>
  \<^verbatim>\<open>getZone\<close> returns \<^verbatim>\<open>&zones[zone_index]\<close> or \<^verbatim>\<open>nullptr\<close>: \<open>Some\<close> of the zone the
  pointer refers to, or \<open>None\<close>.
\<close>

definition getZone :: "'s VL53L1XZoneMonitor \<Rightarrow> nat \<Rightarrow> 's ZoneObserver option" where
  "getZone m zone_index =
     (if zone_index < length (zones m) then Some (zones m ! zone_index) else None)"

definition updateZone ::
  "'s VL53L1XZoneMonitor \<Rightarrow> nat \<Rightarrow> 16 word \<Rightarrow> 16 word \<Rightarrow> 's VL53L1XZoneMonitor" where
  "updateZone m zone_index mn mx =
     (if zone_index < length (zones m) then
        (let m1 = (if mn \<noteq> 0
                   then m\<lparr>zones := (zones m)[zone_index :=
                                 (zones m ! zone_index)\<lparr>min_distance := mn\<rparr>]\<rparr>
                   else m);
             m2 = (if mx \<noteq> 0
                   then m1\<lparr>zones := (zones m1)[zone_index :=
                                 (zones m1 ! zone_index)\<lparr>max_distance := mx\<rparr>]\<rparr>
                   else m1)
         in m2)
      else m)"

definition deleteZone :: "'s VL53L1XZoneMonitor \<Rightarrow> nat \<Rightarrow> 's VL53L1XZoneMonitor" where
  "deleteZone m zone_index =
     (if zone_index < length (zones m)
      then m\<lparr>zones := take zone_index (zones m) @ drop (Suc zone_index) (zones m)\<rparr>
      else m)"

text \<open>
  \<^verbatim>\<open>getDistance\<close>: \<open>sample\<close> is what the sensor answers, \<open>None\<close> when
  \<^verbatim>\<open>dataReady()\<close> is false and \<open>Some d\<close> when it is true and \<^verbatim>\<open>read(false)\<close>
  returns \<open>d\<close>. The monitor itself is not changed.
\<close>

definition getDistance :: "16 word option \<Rightarrow> 16 word \<times> event list" where
  "getDistance sample =
     (case sample of
        Some d \<Rightarrow> (d, [DataReady True, SensorRead d])
      | None \<Rightarrow> (0, [DataReady False]))"

definition setCertaintyFactor ::
  "('s::len) VL53L1XZoneMonitor \<Rightarrow> 's word \<Rightarrow> 's VL53L1XZoneMonitor" where
  "setCertaintyFactor m certainty = m\<lparr>certainty_factor := certainty\<rparr>"

definition getCertaintyFactor :: "('s::len) VL53L1XZoneMonitor \<Rightarrow> 's word" where
  "getCertaintyFactor m = certainty_factor m"

text \<open>The loop \<^verbatim>\<open>for (auto &zone : zones) zone.evaluate(distance, certainty_factor)\<close>.\<close>

fun evaluate_zones ::
  "('s::len) ZoneObserver list \<Rightarrow> 16 word \<Rightarrow> 's word \<Rightarrow> 's ZoneObserver list \<times> event list" where
  "evaluate_zones [] distance certainty = ([], [])"
| "evaluate_zones (zone # rest) distance certainty =
     (let (zone', e1) = evaluate zone distance certainty;
          (rest', e2) = evaluate_zones rest distance certainty
      in (zone' # rest', e1 @ e2))"

text \<open>
  \<^verbatim>\<open>performUpdate\<close> calls \<^verbatim>\<open>millis()\<close> twice: \<open>now1\<close> is the value compared with
  \<open>last_update_time\<close>, \<open>now2\<close> the value of the second call, which is the one stored.
  \<open>sample\<close> is the sensor's answer as in \<open>getDistance\<close>. The subtraction and the
  comparison are those of \<^verbatim>\<open>uint32_t\<close>.
\<close>

definition performUpdate ::
  "('s::len) VL53L1XZoneMonitor \<Rightarrow> 32 word \<Rightarrow> 32 word \<Rightarrow> 16 word option
     \<Rightarrow> 's VL53L1XZoneMonitor \<times> event list" where
  "performUpdate m now1 now2 sample =
     (if now1 - last_update_time m \<ge> update_interval_ms m then
        (let m1 = m\<lparr>last_update_time := now2\<rparr> in
         case sample of
           Some distance \<Rightarrow>
             (let (zs, evs) = evaluate_zones (zones m1) distance (certainty_factor m1)
              in (m1\<lparr>zones := zs\<rparr>, DataReady True # SensorRead distance # evs))
         | None \<Rightarrow> (m1, [DataReady False]))
      else (m, []))"

definition update ::
  "('s::len) VL53L1XZoneMonitor \<Rightarrow> 32 word \<Rightarrow> 32 word \<Rightarrow> 16 word option
     \<Rightarrow> 's VL53L1XZoneMonitor \<times> event list" where
  "update m now1 now2 sample = performUpdate m now1 now2 sample"

definition isObjectInZone ::
  "('s::len) VL53L1XZoneMonitor \<Rightarrow> nat \<Rightarrow> 32 word \<Rightarrow> 32 word \<Rightarrow> 16 word option
     \<Rightarrow> bool \<times> 's VL53L1XZoneMonitor \<times> event list" where
  "isObjectInZone m zone_index now1 now2 sample =
     (let (m1, evs) = performUpdate m now1 now2 sample in
      if zone_index < length (zones m1)
      then (isObjectPresent (zones m1 ! zone_index), m1, evs)
      else (False, m1, evs))"

section \<open>Traces of monitor operations\<close>

text \<open>
  Wall-clock time is a natural number of milliseconds. \<^verbatim>\<open>millis()\<close> at wall-clock time
  \<open>t\<close> is the \<^verbatim>\<open>uint32_t\<close> counter, which wraps.
\<close>

definition millis :: "nat \<Rightarrow> 32 word" where
  "millis t = of_nat t"

text \<open>
  A call of a public operation that changes the monitor or uses the sensor, together
  with what the environment answers: the wall-clock times of the two \<^verbatim>\<open>millis()\<close>
  calls of \<^verbatim>\<open>performUpdate\<close> (the second one is made only when the first passes the
  test), the wall-clock time of a \<^verbatim>\<open>getDistance\<close> call, and the sensor's answer.
  The type parameter is the type of \<^verbatim>\<open>size_t\<close> values, \<open>'s word\<close>.
\<close>

datatype 'c call =
    Update nat nat "16 word option"
  | IsObjectInZone nat nat nat "16 word option"
  | GetDistance nat "16 word option"
  | AddZone "16 word" "16 word" "nat option" "nat option"
  | UpdateZone nat "16 word" "16 word"
  | DeleteZone nat
  | SetCertaintyFactor 'c

text \<open>
  One call: the new monitor and the events of the call, each with the time of the
  clock read that precedes it in the source (for \<^verbatim>\<open>performUpdate\<close> the value stored in
  \<open>last_update_time\<close>).
\<close>

fun step ::
  "('s::len) VL53L1XZoneMonitor \<Rightarrow> 's word call \<Rightarrow> 's VL53L1XZoneMonitor \<times> (nat \<times> event) list" where
  "step m (Update t1 t2 sample) =
     (let (m1, evs) = update m (millis t1) (millis t2) sample in (m1, map (Pair t2) evs))"
| "step m (IsObjectInZone zone_index t1 t2 sample) =
     (let (r, m1, evs) = isObjectInZone m zone_index (millis t1) (millis t2) sample
      in (m1, map (Pair t2) (evs @ [Returned r])))"
| "step m (GetDistance t sample) = (m, map (Pair t) (snd (getDistance sample)))"
| "step m (AddZone mn mx onEnter onExit) = (addZone m mn mx onEnter onExit, [])"
| "step m (UpdateZone zone_index mn mx) = (updateZone m zone_index mn mx, [])"
| "step m (DeleteZone zone_index) = (deleteZone m zone_index, [])"
| "step m (SetCertaintyFactor certainty) = (setCertaintyFactor m certainty, [])"

fun run ::
  "('s::len) VL53L1XZoneMonitor \<Rightarrow> 's word call list \<Rightarrow> 's VL53L1XZoneMonitor \<times> (nat \<times> event) list" where
  "run m [] = (m, [])"
| "run m (c # cs) =
     (let (m1, l1) = step m c;
          (m2, l2) = run m1 cs
      in (m2, l1 @ l2))"

fun clock_reads :: "'c call \<Rightarrow> nat list" where
  "clock_reads (Update t1 t2 sample) = [t1, t2]"
| "clock_reads (IsObjectInZone zone_index t1 t2 sample) = [t1, t2]"
| "clock_reads (GetDistance t sample) = [t]"
| "clock_reads (AddZone mn mx onEnter onExit) = []"
| "clock_reads (UpdateZone zone_index mn mx) = []"
| "clock_reads (DeleteZone zone_index) = []"
| "clock_reads (SetCertaintyFactor certainty) = []"

definition monotone_clock :: "'c call list \<Rightarrow> bool" where
  "monotone_clock tr = sorted (concat (map clock_reads tr))"

fun is_SensorRead :: "event \<Rightarrow> bool" where
  "is_SensorRead (SensorRead d) = True"
| "is_SensorRead e = False"

definition sensor_reads_in :: "nat \<Rightarrow> nat \<Rightarrow> (nat \<times> event) list \<Rightarrow> nat" where
  "sensor_reads_in lo hi log =
     length (filter (\<lambda>(t, e). is_SensorRead e \<and> lo \<le> t \<and> t \<le> hi) log)"

fun is_GetDistance_in :: "nat \<Rightarrow> nat \<Rightarrow> 'c call \<Rightarrow> bool" where
  "is_GetDistance_in lo hi (GetDistance t sample) = (lo \<le> t \<and> t \<le> hi)"
| "is_GetDistance_in lo hi c = False"

definition getDistance_calls_in :: "nat \<Rightarrow> nat \<Rightarrow> 'c call list \<Rightarrow> nat" where
  "getDistance_calls_in lo hi tr = length (filter (is_GetDistance_in lo hi) tr)"

definition ceil_div :: "nat \<Rightarrow> nat \<Rightarrow> nat" where
  "ceil_div a b = (a + b - 1) div b"

text \<open>
  The times of the sensor reads in a log, and those of the reads that
  \<^verbatim>\<open>performUpdate\<close> makes along a trace (all reads but those of \<^verbatim>\<open>getDistance\<close>).
\<close>

definition read_times :: "(nat \<times> event) list \<Rightarrow> nat list" where
  "read_times log = map fst (filter (\<lambda>(t, e). is_SensorRead e) log)"

fun is_GetDistance :: "'c call \<Rightarrow> bool" where
  "is_GetDistance (GetDistance t sample) = True"
| "is_GetDistance c = False"

definition tick_reads :: "('s::len) VL53L1XZoneMonitor \<Rightarrow> 's word call \<Rightarrow> nat list" where
  "tick_reads m c = (if is_GetDistance c then [] else read_times (snd (step m c)))"

fun tick_times :: "('s::len) VL53L1XZoneMonitor \<Rightarrow> 's word call list \<Rightarrow> nat list" where
  "tick_times m [] = []"
| "tick_times m (c # cs) = tick_reads m c @ tick_times (fst (step m c)) cs"

text \<open>Times in increasing order, each at least \<open>gap\<close> after the one before.\<close>

fun spaced :: "nat \<Rightarrow> nat list \<Rightarrow> bool" where
  "spaced gap [] = True"
| "spaced gap [t] = True"
| "spaced gap (t # u # ts) = (t + gap \<le> u \<and> spaced gap (u # ts))"

section \<open>Notions of the specification\<close>

definition in_range :: "'s ZoneObserver \<Rightarrow> 16 word \<Rightarrow> bool" where
  "in_range z d = (min_distance z \<le> d \<and> d \<le> max_distance z)"

fun is_OnEnter :: "event \<Rightarrow> bool" where
  "is_OnEnter (OnEnter f d) = True"
| "is_OnEnter e = False"

fun is_OnExit :: "event \<Rightarrow> bool" where
  "is_OnExit (OnExit g) = True"
| "is_OnExit e = False"

definition on_enter_invocations :: "event list \<Rightarrow> nat" where
  "on_enter_invocations evs = length (filter is_OnEnter evs)"

definition on_exit_invocations :: "event list \<Rightarrow> nat" where
  "on_exit_invocations evs = length (filter is_OnExit evs)"

text \<open>A zone fed a sequence of samples under one fixed certainty.\<close>

definition evaluate_samples ::
  "('s::len) ZoneObserver \<Rightarrow> 's word \<Rightarrow> 16 word list \<Rightarrow> 's ZoneObserver \<times> event list" where
  "evaluate_samples z n ds = evaluate_seq z (map (\<lambda>d. (d, n)) ds)"

text \<open>
  The maximal runs of a sequence under a classification \<open>P\<close>: the sequence cut into its
  longest blocks of consecutive elements on which \<open>P\<close> is constant.
\<close>

fun maximal_runs :: "('a \<Rightarrow> bool) \<Rightarrow> 'a list \<Rightarrow> 'a list list" where
  "maximal_runs P [] = []"
| "maximal_runs P (x # xs) =
     (case maximal_runs P xs of
        [] \<Rightarrow> [[x]]
      | r # rs \<Rightarrow> if P x = P (hd r) then (x # r) # rs else [x] # r # rs)"

text \<open>
  What makes a list of blocks the maximal runs of their concatenation: no block is
  empty, \<open>P\<close> is constant on each block, and changes from each block to the next.
\<close>

fun alternating_runs :: "('a \<Rightarrow> bool) \<Rightarrow> 'a list list \<Rightarrow> bool" where
  "alternating_runs P [] = True"
| "alternating_runs P [r] = (r \<noteq> [] \<and> list_all (\<lambda>x. P x = P (hd r)) r)"
| "alternating_runs P (r # s # rs) =
     (r \<noteq> [] \<and> list_all (\<lambda>x. P x = P (hd r)) r \<and> s \<noteq> [] \<and> P (hd r) \<noteq> P (hd s) \<and>
      alternating_runs P (s # rs))"

text \<open>
  The state machine of the specification. A zone is Empty or Occupied, and is Empty
  at first. It goes from Empty to Occupied on the \<open>N\<close>-th consecutive in-range sample
  and from Occupied to Empty on the \<open>N\<close>-th consecutive out-of-range sample, and keeps
  its state on every other sample. Along the maximal runs of a sample sequence, the
  \<open>k\<close>-th sample of a run is the \<open>k\<close>-th consecutive sample of its kind: a run of
  in-range samples that starts in Empty ends in Occupied exactly when it has an
  \<open>N\<close>-th sample, a run of out-of-range samples that starts in Occupied ends in Empty
  exactly when it has an \<open>N\<close>-th sample, and any other run ends in the state it starts
  in. \<open>P\<close> classifies a sample as in-range. Nothing here refers to the program.
\<close>

datatype zone_state = Empty | Occupied

definition in_window :: "16 word \<Rightarrow> 16 word \<Rightarrow> 16 word \<Rightarrow> bool" where
  "in_window mn mx d = (mn \<le> d \<and> d \<le> mx)"

definition state_after_run :: "('a \<Rightarrow> bool) \<Rightarrow> nat \<Rightarrow> zone_state \<Rightarrow> 'a list \<Rightarrow> zone_state" where
  "state_after_run P N st r =
     (if P (hd r)
      then (if st = Empty \<and> N \<le> length r then Occupied else st)
      else (if st = Occupied \<and> N \<le> length r then Empty else st))"

text \<open>
  The number of runs of at least \<open>N\<close> in-range samples whose preceding state is Empty,
  and of runs of at least \<open>N\<close> out-of-range samples whose preceding state is Occupied,
  in a list of runs entered in state \<open>st\<close>. The state before a run is the state of the
  specification's state machine after the runs before it.
\<close>

fun enter_runs :: "('a \<Rightarrow> bool) \<Rightarrow> nat \<Rightarrow> zone_state \<Rightarrow> 'a list list \<Rightarrow> nat" where
  "enter_runs P N st [] = 0"
| "enter_runs P N st (r # rs) =
     (if P (hd r) \<and> N \<le> length r \<and> st = Empty then 1 else 0)
     + enter_runs P N (state_after_run P N st r) rs"

fun exit_runs :: "('a \<Rightarrow> bool) \<Rightarrow> nat \<Rightarrow> zone_state \<Rightarrow> 'a list list \<Rightarrow> nat" where
  "exit_runs P N st [] = 0"
| "exit_runs P N st (r # rs) =
     (if \<not> P (hd r) \<and> N \<le> length r \<and> st = Occupied then 1 else 0)
     + exit_runs P N (state_after_run P N st r) rs"



text \<open>
  The states in which the counter that \<^verbatim>\<open>evaluate\<close> is about to increment for sample
  \<open>d\<close> holds the largest \<^verbatim>\<open>size_t\<close> value while the flag has not flipped to that side:
  the increment wraps to 0.
\<close>

definition counter_wraps_unfired :: "('s::len) ZoneObserver \<Rightarrow> 16 word \<Rightarrow> bool" where
  "counter_wraps_unfired z d =
     (if min_distance z \<le> d \<and> d \<le> max_distance z
      then in_zone_count z = - 1 \<and> \<not> object_present z
      else out_zone_count z = - 1 \<and> object_present z)"

text \<open>
  The states that are not of this kind for any sample: a counter at the largest value
  only with the flag already on that counter's side.
\<close>

definition wrap_free :: "('s::len) ZoneObserver \<Rightarrow> bool" where
  "wrap_free z =
     ((in_zone_count z = - 1 \<longrightarrow> object_present z) \<and>
      (out_zone_count z = - 1 \<longrightarrow> \<not> object_present z))"

text \<open>
  Two monitors that agree on everything but the certainty factor, which is the same in
  both or 0 in the first and 1 in the second.
\<close>

definition zero_for_one :: "('s::len) VL53L1XZoneMonitor \<Rightarrow> 's VL53L1XZoneMonitor \<Rightarrow> bool" where
  "zero_for_one m0 m1 =
     (zones m0 = zones m1 \<and> update_interval_ms m0 = update_interval_ms m1 \<and>
      last_update_time m0 = last_update_time m1 \<and>
      (certainty_factor m0 = certainty_factor m1 \<or>
       certainty_factor m0 = 0 \<and> certainty_factor m1 = 1))"

text \<open>At most one of the two streak counters of a zone is non-zero.\<close>

definition streaks_exclusive :: "('s::len) ZoneObserver \<Rightarrow> bool" where
  "streaks_exclusive z = (in_zone_count z = 0 \<or> out_zone_count z = 0)"

section \<open>The zone evaluator\<close>

lemma evaluate_in:
  "min_distance z \<le> d \<Longrightarrow> d \<le> max_distance z \<Longrightarrow>
   evaluate z d n =
     (z\<lparr>in_zone_count := in_zone_count z + 1, out_zone_count := 0,
        object_present := object_present z \<or> n \<le> in_zone_count z + 1\<rparr>,
      if n \<le> in_zone_count z + 1 \<and> \<not> object_present z
      then (case on_enter z of None \<Rightarrow> [] | Some f \<Rightarrow> [OnEnter f d]) else [])"
  by (cases z) (auto simp add: evaluate_def Let_def)

lemma evaluate_out:
  "\<not> (min_distance z \<le> d \<and> d \<le> max_distance z) \<Longrightarrow>
   evaluate z d n =
     (z\<lparr>out_zone_count := out_zone_count z + 1, in_zone_count := 0,
        object_present := object_present z \<and> \<not> n \<le> out_zone_count z + 1\<rparr>,
      if n \<le> out_zone_count z + 1 \<and> object_present z
      then (case on_exit z of None \<Rightarrow> [] | Some g \<Rightarrow> [OnExit g]) else [])"
  by (cases z) (auto simp add: evaluate_def Let_def)

text \<open>
  C1. For every zone state \<open>z\<close>, sample \<open>d\<close> and certainty \<open>n\<close> (in particular every
  \<open>n \<ge> 1\<close>), \<^verbatim>\<open>evaluate\<close> returns a state and a log (it is a total function), and:
  when \<open>min_distance \<le> d \<le> max_distance\<close> (bounds included) the in-zone counter is
  incremented (as the unsaturated \<^verbatim>\<open>size_t\<close> counter does), the out-of-zone
  counter is 0, and \<open>object_present\<close> becomes true with \<open>on_enter d\<close> invoked (if set)
  exactly when the incremented counter is at least \<open>n\<close> and \<open>object_present\<close> was
  false; otherwise the dual happens with the out-of-zone counter and \<open>on_exit\<close>.
  Bounds and callbacks are never changed, and at most one callback fires.
\<close>

theorem evaluate_classifies_and_counts:
  fixes z :: "('s::len) ZoneObserver"
  assumes "1 \<le> n" and "evaluate z d n = (z', evs)"
  shows "(min_distance z \<le> d \<and> d \<le> max_distance z \<longrightarrow>
            in_zone_count z' = in_zone_count z + 1 \<and> out_zone_count z' = 0 \<and>
            (if n \<le> in_zone_count z' \<and> \<not> object_present z
             then object_present z' \<and>
                  evs = (case on_enter z of None \<Rightarrow> [] | Some f \<Rightarrow> [OnEnter f d])
             else object_present z' = object_present z \<and> evs = []))
       \<and> (\<not> (min_distance z \<le> d \<and> d \<le> max_distance z) \<longrightarrow>
            out_zone_count z' = out_zone_count z + 1 \<and> in_zone_count z' = 0 \<and>
            (if n \<le> out_zone_count z' \<and> object_present z
             then \<not> object_present z' \<and>
                  evs = (case on_exit z of None \<Rightarrow> [] | Some g \<Rightarrow> [OnExit g])
             else object_present z' = object_present z \<and> evs = []))
       \<and> min_distance z' = min_distance z \<and> max_distance z' = max_distance z
       \<and> on_enter z' = on_enter z \<and> on_exit z' = on_exit z
       \<and> length evs \<le> 1"
proof (cases "min_distance z \<le> d \<and> d \<le> max_distance z")
  case True
  then show ?thesis
    using assms(2) by (auto simp add: evaluate_in split: option.splits)
next
  case False
  then show ?thesis
    using assms(2) by (auto simp add: evaluate_out split: option.splits)
qed

theorem evaluate_classifies_and_counts_witness:
  "(1::32 word) \<le> 1 \<and>
   evaluate (ZoneObserver_ctor 100 300 (Some 1) (Some 2) :: 32 ZoneObserver) 250 1 =
     (\<lparr> min_distance = 100, max_distance = 300, object_present = True,
        on_enter = Some 1, on_exit = Some 2, in_zone_count = 1, out_zone_count = 0 \<rparr>,
      [OnEnter 1 250]) \<and>
   in_zone_count \<lparr> min_distance = 100, max_distance = 300, object_present = True,
        on_enter = Some 1, on_exit = Some 2, in_zone_count = 1 :: 32 word, out_zone_count = 0 :: 32 word \<rparr>
     = in_zone_count (ZoneObserver_ctor 100 300 (Some 1) (Some 2) :: 32 ZoneObserver) + 1"
proof -
  let ?z = "ZoneObserver_ctor 100 300 (Some 1) (Some 2) :: 32 ZoneObserver"
  let ?z' = "\<lparr> min_distance = 100, max_distance = 300, object_present = True,
        on_enter = Some 1, on_exit = Some 2, in_zone_count = 1 :: 32 word, out_zone_count = 0 :: 32 word \<rparr>"
  have h1: "(1::32 word) \<le> 1" by simp
  have h2: "evaluate ?z 250 1 = (?z', [OnEnter 1 250])"
    by (simp add: evaluate_def ZoneObserver_ctor_def)
  have h3: "min_distance ?z \<le> 250 \<and> 250 \<le> max_distance ?z"
    by (simp add: ZoneObserver_ctor_def)
  from evaluate_classifies_and_counts [OF h1 h2] h3
  have "in_zone_count ?z' = in_zone_count ?z + 1" by blast
  with h1 h2 show ?thesis by blast
qed

subsection \<open>Streak exclusivity\<close>

lemma streaks_exclusive_evaluate: "streaks_exclusive (fst (evaluate z d n))"
  by (simp add: streaks_exclusive_def evaluate_def Let_def)

lemma streaks_exclusive_evaluate_seq:
  "streaks_exclusive z \<Longrightarrow> streaks_exclusive (fst (evaluate_seq z calls))"
proof (induction calls arbitrary: z)
  case Nil
  then show ?case by simp
next
  case (Cons c calls)
  obtain d n where c: "c = (d, n)" by (cases c)
  have "streaks_exclusive (fst (evaluate z d n))" by (rule streaks_exclusive_evaluate)
  from Cons.IH [OF this] show ?case by (simp add: c split_beta)
qed

lemma streaks_exclusive_evaluate_zones:
  "list_all streaks_exclusive (fst (evaluate_zones zs d n))"
  by (induction zs) (simp_all add: split_beta streaks_exclusive_evaluate)

lemma streaks_exclusive_step:
  assumes "list_all streaks_exclusive (zones m)"
  shows "list_all streaks_exclusive (zones (fst (step m c)))"
proof -
  have pu: "list_all streaks_exclusive (zones (fst (performUpdate m now1 now2 sample)))"
    for now1 now2 sample
    using assms
    by (simp add: performUpdate_def Let_def split_beta streaks_exclusive_evaluate_zones
        split: option.splits)
  from assms have del: "list_all streaks_exclusive (zones (deleteZone m i))" for i
    by (auto simp add: deleteZone_def list_all_iff dest: in_set_takeD in_set_dropD)
  from assms have upd: "list_all streaks_exclusive (zones (updateZone m i mn mx))" for i mn mx
    by (auto simp add: updateZone_def Let_def list_all_length nth_list_update streaks_exclusive_def)
  from assms have add: "list_all streaks_exclusive (zones (addZone m mn mx en ex))" for mn mx en ex
    by (simp add: addZone_def streaks_exclusive_def ZoneObserver_ctor_def)
  show ?thesis
    using assms pu del upd add
    by (cases c) (simp_all add: update_def isObjectInZone_def split_beta Let_def setCertaintyFactor_def)
qed

lemma streaks_exclusive_run:
  "list_all streaks_exclusive (zones m) \<Longrightarrow> list_all streaks_exclusive (zones (fst (run m tr)))"
proof (induction tr arbitrary: m)
  case Nil
  then show ?case by simp
next
  case (Cons c tr)
  from Cons.prems have "list_all streaks_exclusive (zones (fst (step m c)))"
    by (rule streaks_exclusive_step)
  from Cons.IH [OF this] show ?case by (simp add: split_beta)
qed

text \<open>
  C3. Streak exclusivity: after any call of \<^verbatim>\<open>evaluate\<close>, from any state, at least one
  of the two counters is 0; in the state reached from a freshly constructed zone by any
  number of \<^verbatim>\<open>evaluate\<close> calls (none included), at least one of them is 0; and after
  any trace of public operations on a freshly constructed monitor, this holds of every
  zone of the monitor.
\<close>

theorem streak_exclusivity:
  fixes z :: "('s::len) ZoneObserver"
  shows "(in_zone_count (fst (evaluate z d n)) = 0 \<or> out_zone_count (fst (evaluate z d n)) = 0)
       \<and> (in_zone_count (fst (evaluate_seq (ZoneObserver_ctor mn mx en ex :: 's ZoneObserver) calls)) = 0
          \<or> out_zone_count (fst (evaluate_seq (ZoneObserver_ctor mn mx en ex :: 's ZoneObserver) calls)) = 0)
       \<and> list_all (\<lambda>zone. in_zone_count zone = 0 \<or> out_zone_count zone = 0)
            (zones (fst (run (VL53L1XZoneMonitor_ctor interval_ms certainty :: 's VL53L1XZoneMonitor) tr)))"
proof -
  have a: "streaks_exclusive (fst (evaluate z d n))" by (rule streaks_exclusive_evaluate)
  have "streaks_exclusive (ZoneObserver_ctor mn mx en ex :: 's ZoneObserver)"
    by (simp add: streaks_exclusive_def ZoneObserver_ctor_def)
  then have b: "streaks_exclusive (fst (evaluate_seq (ZoneObserver_ctor mn mx en ex :: 's ZoneObserver) calls))"
    by (rule streaks_exclusive_evaluate_seq)
  have "list_all streaks_exclusive (zones (VL53L1XZoneMonitor_ctor interval_ms certainty :: 's VL53L1XZoneMonitor))"
    by (simp add: VL53L1XZoneMonitor_ctor_def)
  then have "list_all streaks_exclusive
      (zones (fst (run (VL53L1XZoneMonitor_ctor interval_ms certainty :: 's VL53L1XZoneMonitor) tr)))"
    by (rule streaks_exclusive_run)
  then have c: "list_all (\<lambda>zone. in_zone_count zone = 0 \<or> out_zone_count zone = 0)
      (zones (fst (run (VL53L1XZoneMonitor_ctor interval_ms certainty :: 's VL53L1XZoneMonitor) tr)))"
    by (simp add: streaks_exclusive_def [abs_def])
  from a b c show ?thesis unfolding streaks_exclusive_def by blast
qed

section \<open>Zone management\<close>

lemma evaluate_zones_length:
  "length (fst (evaluate_zones zs d n)) = length zs"
  by (induction zs) (simp_all add: split_beta)

lemma performUpdate_length:
  "length (zones (fst (performUpdate m now1 now2 sample))) = length (zones m)"
  by (simp add: performUpdate_def Let_def split_beta evaluate_zones_length split: option.splits)

text \<open>
  C6. For an index \<open>i\<close> below the zone count, \<^verbatim>\<open>deleteZone\<close> leaves the zones at
  indices below \<open>i\<close> where they were, moves each zone at an index \<open>j > i\<close> to
  \<open>j - 1\<close>, makes \<^verbatim>\<open>getZoneCount\<close> one smaller and changes nothing else; for any
  other index the monitor is unchanged.
\<close>

theorem deleteZone_shifts:
  "(i < getZoneCount m \<longrightarrow>
      Suc (getZoneCount (deleteZone m i)) = getZoneCount m \<and>
      (\<forall>j. j < i \<longrightarrow> zones (deleteZone m i) ! j = zones m ! j) \<and>
      (\<forall>j. i < j \<and> j < getZoneCount m \<longrightarrow> zones (deleteZone m i) ! (j - 1) = zones m ! j) \<and>
      update_interval_ms (deleteZone m i) = update_interval_ms m \<and>
      last_update_time (deleteZone m i) = last_update_time m \<and>
      certainty_factor (deleteZone m i) = certainty_factor m)
   \<and> (\<not> i < getZoneCount m \<longrightarrow> deleteZone m i = m)"
proof -
  have "zones (deleteZone m i) ! (j - 1) = zones m ! j"
    if "i < length (zones m)" "i < j" "j < length (zones m)" for j
  proof -
    from that have "j - 1 - i + Suc i = j" by simp
    with that show ?thesis
      by (simp add: deleteZone_def nth_append min_def)
  qed
  then show ?thesis
    by (auto simp add: deleteZone_def getZoneCount_def nth_append min_def)
qed

theorem deleteZone_shifts_witness:
  "(1::nat) < getZoneCount (addZone (addZone (addZone (VL53L1XZoneMonitor_ctor 50 1 :: 32 VL53L1XZoneMonitor) 100 200 None None) 150 250 None None) 300 400 None None) \<and>
   zones (deleteZone (addZone (addZone (addZone (VL53L1XZoneMonitor_ctor 50 1 :: 32 VL53L1XZoneMonitor) 100 200 None None) 150 250 None None) 300 400 None None) 1) ! (2 - 1)
     = ZoneObserver_ctor 300 400 None None \<and>
   \<not> (3::nat) < getZoneCount (addZone (VL53L1XZoneMonitor_ctor 50 1 :: 32 VL53L1XZoneMonitor) 100 200 None None) \<and>
   deleteZone (addZone (VL53L1XZoneMonitor_ctor 50 1 :: 32 VL53L1XZoneMonitor) 100 200 None None) 3
     = addZone (VL53L1XZoneMonitor_ctor 50 1) 100 200 None None"
proof -
  let ?m3 = "addZone (addZone (addZone (VL53L1XZoneMonitor_ctor 50 1 :: 32 VL53L1XZoneMonitor) 100 200 None None) 150 250 None None) 300 400 None None"
  let ?m1 = "addZone (VL53L1XZoneMonitor_ctor 50 1 :: 32 VL53L1XZoneMonitor) 100 200 None None"
  have a: "(1::nat) < getZoneCount ?m3" "(1::nat) < 2 \<and> 2 < getZoneCount ?m3"
    by (simp_all add: getZoneCount_def addZone_def VL53L1XZoneMonitor_ctor_def)
  have b: "zones ?m3 ! 2 = ZoneObserver_ctor 300 400 None None"
    by (simp add: addZone_def VL53L1XZoneMonitor_ctor_def)
  have c: "\<not> (3::nat) < getZoneCount ?m1"
    by (simp add: getZoneCount_def addZone_def VL53L1XZoneMonitor_ctor_def)
  from deleteZone_shifts [of 1 ?m3] a b
  have "zones (deleteZone ?m3 1) ! (2 - 1) = ZoneObserver_ctor 300 400 None None"
    by metis
  moreover from deleteZone_shifts [of 3 ?m1] c have "deleteZone ?m1 3 = ?m1" by blast
  ultimately show ?thesis using a c by blast
qed

text \<open>
  C7. \<^verbatim>\<open>updateZone\<close> with an index that is not below the zone count changes nothing.
  With an index in range, a bound argument equal to 0 keeps the stored bound and any other
  value replaces it; the zone's counters, its \<open>object_present\<close> flag and its callbacks
  are kept, every other zone is kept, and so are the number of zones and the other fields
  of the monitor. With both bounds 0 the monitor is unchanged.
\<close>

theorem updateZone_bounds_only:
  "(\<not> i < getZoneCount m \<longrightarrow> updateZone m i mn mx = m)
   \<and> (i < getZoneCount m \<longrightarrow>
        min_distance (zones (updateZone m i mn mx) ! i) =
          (if mn = 0 then min_distance (zones m ! i) else mn) \<and>
        max_distance (zones (updateZone m i mn mx) ! i) =
          (if mx = 0 then max_distance (zones m ! i) else mx) \<and>
        in_zone_count (zones (updateZone m i mn mx) ! i) = in_zone_count (zones m ! i) \<and>
        out_zone_count (zones (updateZone m i mn mx) ! i) = out_zone_count (zones m ! i) \<and>
        object_present (zones (updateZone m i mn mx) ! i) = object_present (zones m ! i) \<and>
        on_enter (zones (updateZone m i mn mx) ! i) = on_enter (zones m ! i) \<and>
        on_exit (zones (updateZone m i mn mx) ! i) = on_exit (zones m ! i))
   \<and> (\<forall>j. j \<noteq> i \<longrightarrow> zones (updateZone m i mn mx) ! j = zones m ! j)
   \<and> getZoneCount (updateZone m i mn mx) = getZoneCount m
   \<and> update_interval_ms (updateZone m i mn mx) = update_interval_ms m
   \<and> last_update_time (updateZone m i mn mx) = last_update_time m
   \<and> certainty_factor (updateZone m i mn mx) = certainty_factor m
   \<and> updateZone m i 0 0 = m"
  by (simp add: updateZone_def getZoneCount_def Let_def)

theorem updateZone_bounds_only_witness:
  "(0::nat) < getZoneCount (addZone (VL53L1XZoneMonitor_ctor 50 1 :: 32 VL53L1XZoneMonitor) 100 200 None None) \<and>
   min_distance (zones (updateZone (addZone (VL53L1XZoneMonitor_ctor 50 1 :: 32 VL53L1XZoneMonitor) 100 200 None None) 0 0 400) ! 0) = 100 \<and>
   max_distance (zones (updateZone (addZone (VL53L1XZoneMonitor_ctor 50 1 :: 32 VL53L1XZoneMonitor) 100 200 None None) 0 0 400) ! 0) = 400 \<and>
   \<not> (1::nat) < getZoneCount (addZone (VL53L1XZoneMonitor_ctor 50 1 :: 32 VL53L1XZoneMonitor) 100 200 None None) \<and>
   updateZone (addZone (VL53L1XZoneMonitor_ctor 50 1 :: 32 VL53L1XZoneMonitor) 100 200 None None) 1 300 400
     = addZone (VL53L1XZoneMonitor_ctor 50 1) 100 200 None None"
proof -
  let ?m = "addZone (VL53L1XZoneMonitor_ctor 50 1 :: 32 VL53L1XZoneMonitor) 100 200 None None"
  have a: "(0::nat) < getZoneCount ?m" "\<not> (1::nat) < getZoneCount ?m"
    by (simp_all add: getZoneCount_def addZone_def VL53L1XZoneMonitor_ctor_def)
  have b: "min_distance (zones ?m ! 0) = 100" "max_distance (zones ?m ! 0) = 200"
    by (simp_all add: addZone_def VL53L1XZoneMonitor_ctor_def ZoneObserver_ctor_def)
  from updateZone_bounds_only [of 0 ?m 0 400] a(1) b
  have "min_distance (zones (updateZone ?m 0 0 400) ! 0) = 100"
       "max_distance (zones (updateZone ?m 0 0 400) ! 0) = 400"
    by simp_all
  moreover from updateZone_bounds_only [of 1 ?m 300 400] a(2)
  have "updateZone ?m 1 300 400 = ?m" by blast
  ultimately show ?thesis using a by blast
qed

section \<open>Queries\<close>

text \<open>
  C8. For an index that is not below the zone count, \<^verbatim>\<open>isObjectInZone\<close> returns false
  and \<^verbatim>\<open>getZone\<close> returns the null pointer (both are total: the vector is only indexed
  under the range check). For an index in range, \<^verbatim>\<open>isObjectInZone\<close> runs
  \<^verbatim>\<open>performUpdate\<close> and returns the \<open>object_present\<close> flag that the zone at that index
  has afterwards, and \<^verbatim>\<open>getZone\<close> returns that zone.
\<close>

theorem index_tolerance:
  "(\<not> i < getZoneCount m \<longrightarrow>
      isObjectInZone m i now1 now2 sample = (False, performUpdate m now1 now2 sample) \<and>
      getZone m i = None)
   \<and> (i < getZoneCount m \<longrightarrow>
      isObjectInZone m i now1 now2 sample =
        (object_present (zones (fst (performUpdate m now1 now2 sample)) ! i),
         performUpdate m now1 now2 sample) \<and>
      getZone m i = Some (zones m ! i))"
  using performUpdate_length [of m now1 now2 sample]
  by (simp add: isObjectInZone_def getZone_def getZoneCount_def isObjectPresent_def split_beta)

theorem index_tolerance_witness:
  "\<not> (5::nat) < getZoneCount (addZone (VL53L1XZoneMonitor_ctor 50 1 :: 32 VL53L1XZoneMonitor) 100 300 None None) \<and>
   fst (isObjectInZone (addZone (VL53L1XZoneMonitor_ctor 50 1 :: 32 VL53L1XZoneMonitor) 100 300 None None) 5 60 60 (Some 150)) = False \<and>
   getZone (addZone (VL53L1XZoneMonitor_ctor 50 1 :: 32 VL53L1XZoneMonitor) 100 300 None None) 5 = None \<and>
   (0::nat) < getZoneCount (addZone (VL53L1XZoneMonitor_ctor 50 1 :: 32 VL53L1XZoneMonitor) 100 300 None None) \<and>
   fst (isObjectInZone (addZone (VL53L1XZoneMonitor_ctor 50 1 :: 32 VL53L1XZoneMonitor) 100 300 None None) 0 60 60 (Some 150)) = True"
proof -
  let ?m = "addZone (VL53L1XZoneMonitor_ctor 50 1 :: 32 VL53L1XZoneMonitor) 100 300 None None"
  have a: "\<not> (5::nat) < getZoneCount ?m" "(0::nat) < getZoneCount ?m"
    by (simp_all add: getZoneCount_def addZone_def VL53L1XZoneMonitor_ctor_def)
  have b: "object_present (zones (fst (performUpdate ?m 60 60 (Some 150))) ! 0) = True"
    by (simp add: performUpdate_def addZone_def VL53L1XZoneMonitor_ctor_def
        ZoneObserver_ctor_def evaluate_def Let_def)
  from index_tolerance [of 5 ?m 60 60 "Some 150"] a(1)
  have "fst (isObjectInZone ?m 5 60 60 (Some 150)) = False" "getZone ?m 5 = None"
    by simp_all
  moreover from index_tolerance [of 0 ?m 60 60 "Some 150"] a(2) b
  have "fst (isObjectInZone ?m 0 60 60 (Some 150)) = True" by simp
  ultimately show ?thesis using a by blast
qed

section \<open>The tick\<close>

text \<open>
  C5 as stated asks that the value stored in \<open>last_update_time\<close> is the value \<open>T\<close> that
  was compared with it. The source calls \<^verbatim>\<open>millis()\<close> a second time for the store, so
  when the clock advances between the two calls (here from 100 to 101) the stored value
  is not \<open>T\<close>.
\<close>

theorem performUpdate_stores_second_reading:
  "(100 :: 32 word) - last_update_time (VL53L1XZoneMonitor_ctor 50 1 :: 32 VL53L1XZoneMonitor)
      \<ge> update_interval_ms (VL53L1XZoneMonitor_ctor 50 1 :: 32 VL53L1XZoneMonitor) \<and>
   last_update_time
     (fst (performUpdate (VL53L1XZoneMonitor_ctor 50 1 :: 32 VL53L1XZoneMonitor) 100 101 None))
     \<noteq> 100"
  by (simp add: performUpdate_def VL53L1XZoneMonitor_ctor_def)

text \<open>
  C5, amended. \<^verbatim>\<open>performUpdate\<close> reads the clock, \<open>now1\<close>. If
  \<open>now1 - last_update_time < update_interval_ms\<close> in \<^verbatim>\<open>uint32_t\<close> arithmetic it returns
  with the monitor unchanged and without any call of the sensor. Otherwise it stores in
  \<open>last_update_time\<close> the value \<open>now2\<close> of a second read of the clock (which is \<open>now1\<close>
  only if the clock did not advance in between), whatever the sensor answers afterwards;
  and when the sensor has no sample ready, the sensor is only polled and nothing but
  \<open>last_update_time\<close> changes, so every zone keeps its flag and both counters.
\<close>

theorem performUpdate_gate:
  "(now1 - last_update_time m < update_interval_ms m \<longrightarrow>
      performUpdate m now1 now2 sample = (m, []))
   \<and> (\<not> now1 - last_update_time m < update_interval_ms m \<longrightarrow>
      last_update_time (fst (performUpdate m now1 now2 sample)) = now2 \<and>
      (sample = None \<longrightarrow>
         performUpdate m now1 now2 sample = (m\<lparr>last_update_time := now2\<rparr>, [DataReady False]) \<and>
         zones (fst (performUpdate m now1 now2 sample)) = zones m))"
  by (auto simp add: performUpdate_def Let_def split_beta not_less split: option.splits)

theorem performUpdate_gate_witness:
  "(40 :: 32 word) - last_update_time (VL53L1XZoneMonitor_ctor 50 1 :: 32 VL53L1XZoneMonitor)
      < update_interval_ms (VL53L1XZoneMonitor_ctor 50 1 :: 32 VL53L1XZoneMonitor) \<and>
   performUpdate (VL53L1XZoneMonitor_ctor 50 1 :: 32 VL53L1XZoneMonitor) 40 41 (Some 7)
     = (VL53L1XZoneMonitor_ctor 50 1, []) \<and>
   \<not> (100 :: 32 word) - last_update_time (VL53L1XZoneMonitor_ctor 50 1 :: 32 VL53L1XZoneMonitor)
      < update_interval_ms (VL53L1XZoneMonitor_ctor 50 1 :: 32 VL53L1XZoneMonitor) \<and>
   performUpdate (addZone (VL53L1XZoneMonitor_ctor 50 1 :: 32 VL53L1XZoneMonitor) 100 300 None None) 100 101 None
     = ((addZone (VL53L1XZoneMonitor_ctor 50 1) 100 300 None None)\<lparr>last_update_time := 101\<rparr>,
        [DataReady False])"
proof -
  let ?m0 = "VL53L1XZoneMonitor_ctor 50 1 :: 32 VL53L1XZoneMonitor"
  let ?m1 = "addZone ?m0 100 300 None None"
  have a: "(40 :: 32 word) - last_update_time ?m0 < update_interval_ms ?m0"
    by (simp add: VL53L1XZoneMonitor_ctor_def)
  have b: "\<not> (100 :: 32 word) - last_update_time ?m0 < update_interval_ms ?m0"
    by (simp add: VL53L1XZoneMonitor_ctor_def)
  have c: "\<not> (100 :: 32 word) - last_update_time ?m1 < update_interval_ms ?m1"
    by (simp add: VL53L1XZoneMonitor_ctor_def addZone_def)
  from performUpdate_gate [of 40 ?m0 41 "Some 7"] a
  have "performUpdate ?m0 40 41 (Some 7) = (?m0, [])" by blast
  moreover from performUpdate_gate [of 100 ?m1 101 None] c
  have "performUpdate ?m1 100 101 None = (?m1\<lparr>last_update_time := 101\<rparr>, [DataReady False])"
    by blast
  ultimately show ?thesis using a b by blast
qed

section \<open>Certainty 0 and certainty 1\<close>

lemma one_le_word_iff: "(1 \<le> (w :: 'a::len word)) = (w \<noteq> 0)"
  by (simp add: word_le_nat_alt unat_eq_zero Suc_le_eq unat_gt_0)

lemma word_succ_eq_0_iff: "((w :: 'a::len word) + 1 = 0) = (w = - 1)"
  by (simp add: eq_neg_iff_add_eq_0)

lemma evaluate_zero_one_iff:
  "(evaluate z d 0 = evaluate z d 1) = (\<not> counter_wraps_unfired z d)"
proof (cases "min_distance z \<le> d \<and> d \<le> max_distance z")
  case True
  show ?thesis
  proof (cases "in_zone_count z = - 1 \<and> \<not> object_present z")
    case wrap: True
    then have "in_zone_count z + 1 = 0" by simp
    with wrap True have "object_present (fst (evaluate z d 0))" "\<not> object_present (fst (evaluate z d 1))"
      by (simp_all add: evaluate_in)
    then have "evaluate z d 0 \<noteq> evaluate z d 1" by metis
    with wrap True show ?thesis by (auto simp add: counter_wraps_unfired_def)
  next
    case False
    then have "object_present z \<or> in_zone_count z + 1 \<noteq> 0"
      by (auto simp add: word_succ_eq_0_iff)
    then have "evaluate z d 0 = evaluate z d 1"
      using True by (auto simp add: evaluate_in one_le_word_iff)
    with False True show ?thesis by (auto simp add: counter_wraps_unfired_def)
  qed
next
  case out: False
  show ?thesis
  proof (cases "out_zone_count z = - 1 \<and> object_present z")
    case wrap: True
    then have "out_zone_count z + 1 = 0" by simp
    with wrap out have "\<not> object_present (fst (evaluate z d 0))" "object_present (fst (evaluate z d 1))"
      by (simp_all add: evaluate_out)
    then have "evaluate z d 0 \<noteq> evaluate z d 1" by metis
    with wrap out show ?thesis by (auto simp add: counter_wraps_unfired_def)
  next
    case False
    then have "\<not> object_present z \<or> out_zone_count z + 1 \<noteq> 0"
      by (auto simp add: word_succ_eq_0_iff)
    then have "evaluate z d 0 = evaluate z d 1"
      using out by (auto simp add: evaluate_out one_le_word_iff)
    with False out show ?thesis by (auto simp add: counter_wraps_unfired_def)
  qed
qed


lemma wrap_free_ctor: "wrap_free (ZoneObserver_ctor mn mx en ex)"
  by (simp add: wrap_free_def ZoneObserver_ctor_def)

lemma le_word_max: "x = - 1 \<Longrightarrow> n \<le> (x :: 'a::len word)"
  by simp

lemma wrap_free_evaluate: "wrap_free z \<Longrightarrow> wrap_free (fst (evaluate z d n))"
proof (cases "min_distance z \<le> d \<and> d \<le> max_distance z")
  case True
  then have p: "in_zone_count (fst (evaluate z d n)) = in_zone_count z + 1"
    "out_zone_count (fst (evaluate z d n)) = 0"
    "object_present (fst (evaluate z d n)) = (object_present z \<or> n \<le> in_zone_count z + 1)"
    by (simp_all add: evaluate_in)
  have "(0 :: 'a word) \<noteq> - 1" by simp
  then show ?thesis
    unfolding wrap_free_def p using le_word_max [of "in_zone_count z + 1" n] by blast
next
  case False
  then have p: "out_zone_count (fst (evaluate z d n)) = out_zone_count z + 1"
    "in_zone_count (fst (evaluate z d n)) = 0"
    "object_present (fst (evaluate z d n)) = (object_present z \<and> \<not> n \<le> out_zone_count z + 1)"
    by (simp_all add: evaluate_out)
  have "(0 :: 'a word) \<noteq> - 1" by simp
  then show ?thesis
    unfolding wrap_free_def p using le_word_max [of "out_zone_count z + 1" n] by blast
qed

lemma wrap_free_not_wraps: "wrap_free z \<Longrightarrow> \<not> counter_wraps_unfired z d"
  by (auto simp add: wrap_free_def counter_wraps_unfired_def)

lemma wrap_free_evaluate_seq: "wrap_free z \<Longrightarrow> wrap_free (fst (evaluate_seq z calls))"
proof (induction calls arbitrary: z)
  case Nil
  then show ?case by simp
next
  case (Cons c calls)
  obtain d n where c: "c = (d, n)" by (cases c)
  from Cons.prems have "wrap_free (fst (evaluate z d n))" by (rule wrap_free_evaluate)
  from Cons.IH [OF this] show ?case by (simp add: c split_beta)
qed

lemma wrap_free_evaluate_zones:
  "list_all wrap_free zs \<Longrightarrow> list_all wrap_free (fst (evaluate_zones zs d n))"
  by (induction zs) (simp_all add: split_beta wrap_free_evaluate)

lemma evaluate_zero_one: "wrap_free z \<Longrightarrow> evaluate z d 0 = evaluate z d 1"
  by (simp add: evaluate_zero_one_iff wrap_free_not_wraps)

lemma evaluate_zones_zero_one:
  "list_all wrap_free zs \<Longrightarrow> evaluate_zones zs d 0 = evaluate_zones zs d 1"
  by (induction zs) (simp_all add: evaluate_zero_one)

lemma wrap_free_performUpdate:
  "list_all wrap_free (zones m) \<Longrightarrow>
   list_all wrap_free (zones (fst (performUpdate m now1 now2 sample)))"
  by (simp add: performUpdate_def Let_def split_beta wrap_free_evaluate_zones split: option.splits)

lemma wrap_free_updateZone:
  "list_all wrap_free (zones m) \<Longrightarrow> list_all wrap_free (zones (updateZone m i mn mx))"
  by (auto simp add: updateZone_def Let_def list_all_length nth_list_update wrap_free_def)

lemma wrap_free_deleteZone:
  "list_all wrap_free (zones m) \<Longrightarrow> list_all wrap_free (zones (deleteZone m i))"
proof -
  assume a: "list_all wrap_free (zones m)"
  have "set (take i (zones m)) \<subseteq> set (zones m)" "set (drop (Suc i) (zones m)) \<subseteq> set (zones m)"
    by (rule set_take_subset, rule set_drop_subset)
  with a show ?thesis
    by (auto simp add: deleteZone_def list_all_iff)
qed

lemma wrap_free_step:
  "list_all wrap_free (zones m) \<Longrightarrow> list_all wrap_free (zones (fst (step m c)))"
  by (cases c)
     (simp_all add: update_def isObjectInZone_def split_beta Let_def addZone_def
        setCertaintyFactor_def wrap_free_performUpdate wrap_free_updateZone
        wrap_free_deleteZone wrap_free_ctor)

lemma wrap_free_run:
  "list_all wrap_free (zones m) \<Longrightarrow> list_all wrap_free (zones (fst (run m tr)))"
proof (induction tr arbitrary: m)
  case Nil
  then show ?case by simp
next
  case (Cons c tr)
  from Cons.prems have "list_all wrap_free (zones (fst (step m c)))" by (rule wrap_free_step)
  from Cons.IH [OF this] show ?case by (simp add: split_beta)
qed

lemma zero_for_one_performUpdate:
  assumes "zero_for_one m0 m1" and "list_all wrap_free (zones m0)"
  shows "snd (performUpdate m0 now1 now2 sample) = snd (performUpdate m1 now1 now2 sample)
       \<and> zero_for_one (fst (performUpdate m0 now1 now2 sample))
                      (fst (performUpdate m1 now1 now2 sample))"
proof -
  from assms(1) have f: "zones m0 = zones m1" "update_interval_ms m0 = update_interval_ms m1"
    "last_update_time m0 = last_update_time m1" by (simp_all add: zero_for_one_def)
  have ez: "evaluate_zones (zones m1) d (certainty_factor m0)
          = evaluate_zones (zones m1) d (certainty_factor m1)" for d
    using assms evaluate_zones_zero_one [of "zones m1" d]
    by (auto simp add: zero_for_one_def)
  from assms(1) f ez show ?thesis
    by (simp add: performUpdate_def Let_def split_beta zero_for_one_def split: option.splits)
qed

lemma zero_for_one_step:
  assumes "zero_for_one m0 m1" and "list_all wrap_free (zones m0)"
  shows "snd (step m0 c) = snd (step m1 c) \<and> zero_for_one (fst (step m0 c)) (fst (step m1 c))"
proof (cases c)
  case (Update t1 t2 sample)
  with zero_for_one_performUpdate [OF assms, of "millis t1" "millis t2" sample]
  show ?thesis by (simp add: update_def split_beta)
next
  case (IsObjectInZone i t1 t2 sample)
  from zero_for_one_performUpdate [OF assms, of "millis t1" "millis t2" sample]
  have "snd (performUpdate m0 (millis t1) (millis t2) sample)
        = snd (performUpdate m1 (millis t1) (millis t2) sample)"
    "zero_for_one (fst (performUpdate m0 (millis t1) (millis t2) sample))
                  (fst (performUpdate m1 (millis t1) (millis t2) sample))"
    by simp_all
  moreover from this(2)
  have "zones (fst (performUpdate m0 (millis t1) (millis t2) sample))
      = zones (fst (performUpdate m1 (millis t1) (millis t2) sample))"
    by (simp add: zero_for_one_def)
  ultimately show ?thesis
    by (simp add: IsObjectInZone isObjectInZone_def split_beta Let_def)
next
  case (GetDistance t sample)
  with assms show ?thesis by simp
next
  case (AddZone mn mx en ex)
  with assms show ?thesis by (simp add: addZone_def zero_for_one_def)
next
  case (UpdateZone i mn mx)
  with assms show ?thesis by (simp add: updateZone_def zero_for_one_def Let_def)
next
  case (DeleteZone i)
  with assms show ?thesis by (simp add: deleteZone_def zero_for_one_def)
next
  case (SetCertaintyFactor n)
  with assms show ?thesis by (simp add: setCertaintyFactor_def zero_for_one_def)
qed

lemma zero_for_one_run:
  "zero_for_one m0 m1 \<Longrightarrow> list_all wrap_free (zones m0) \<Longrightarrow>
   snd (run m0 tr) = snd (run m1 tr) \<and> zero_for_one (fst (run m0 tr)) (fst (run m1 tr))"
proof (induction tr arbitrary: m0 m1)
  case Nil
  then show ?case by simp
next
  case (Cons c tr)
  from zero_for_one_step [OF Cons.prems, of c]
  have s: "snd (step m0 c) = snd (step m1 c)" "zero_for_one (fst (step m0 c)) (fst (step m1 c))"
    by simp_all
  from Cons.prems(2) have "list_all wrap_free (zones (fst (step m0 c)))" by (rule wrap_free_step)
  from Cons.IH [OF s(2) this] s(1) show ?case by (simp add: split_beta)
qed


lemma size_t32_wraps: "(4294967296 :: 32 word) = 0"
  by (simp add: word_eq_iff_unsigned [where ?'a = nat])

text \<open>
  C10 as stated covers every zone state. In the state with \<open>in_zone_count\<close> at the
  largest 32-bit value and \<open>object_present\<close> false, an in-range sample wraps the counter
  to 0: with certainty 0 the test \<open>0 \<ge> 0\<close> succeeds and \<^verbatim>\<open>on_enter\<close> fires, with
  certainty 1 the test \<open>0 \<ge> 1\<close> fails.
\<close>

theorem certainty_zero_differs_at_wrap:
  "evaluate \<lparr> min_distance = 100, max_distance = 300, object_present = False,
              on_enter = Some 1, on_exit = Some 2,
              in_zone_count = 4294967295 :: 32 word, out_zone_count = 0 :: 32 word \<rparr> 250 0
     = (\<lparr> min_distance = 100, max_distance = 300, object_present = True,
          on_enter = Some 1, on_exit = Some 2,
          in_zone_count = 0, out_zone_count = 0 \<rparr>, [OnEnter 1 250])
   \<and> evaluate \<lparr> min_distance = 100, max_distance = 300, object_present = False,
              on_enter = Some 1, on_exit = Some 2,
              in_zone_count = 4294967295 :: 32 word, out_zone_count = 0 :: 32 word \<rparr> 250 1
     = (\<lparr> min_distance = 100, max_distance = 300, object_present = False,
          on_enter = Some 1, on_exit = Some 2,
          in_zone_count = 0, out_zone_count = 0 \<rparr>, [])"
  by (simp add: evaluate_def size_t32_wraps)

text \<open>
  C10, amended. \<^verbatim>\<open>evaluate\<close> with certainty 0 and with certainty 1 give the same state
  and the same callback invocations exactly in the states where the counter about to be
  incremented is not at the largest \<^verbatim>\<open>size_t\<close> value with the flag still on the other
  side. No sequence of \<^verbatim>\<open>evaluate\<close> calls from a constructed zone reaches such a state.
  And for a monitor reached from its constructor by any trace of operations,
  \<^verbatim>\<open>setCertaintyFactor(0)\<close> and \<^verbatim>\<open>setCertaintyFactor(1)\<close> are followed, under any
  further trace, by the same sensor accesses, callback invocations and
  \<^verbatim>\<open>isObjectInZone\<close> results, and lead to the same zones.
\<close>

theorem certainty_zero_as_one:
  fixes z :: "('s::len) ZoneObserver"
  shows "((evaluate z d 0 = evaluate z d 1) = (\<not> counter_wraps_unfired z d))
       \<and> \<not> counter_wraps_unfired
             (fst (evaluate_seq (ZoneObserver_ctor mn mx en ex :: 's ZoneObserver) calls)) d'
       \<and> snd (run (setCertaintyFactor
                     (fst (run (VL53L1XZoneMonitor_ctor interval_ms certainty :: 's VL53L1XZoneMonitor) pre)) 0) post)
         = snd (run (setCertaintyFactor
                     (fst (run (VL53L1XZoneMonitor_ctor interval_ms certainty)  pre)) 1) post)
       \<and> zones (fst (run (setCertaintyFactor
                     (fst (run (VL53L1XZoneMonitor_ctor interval_ms certainty :: 's VL53L1XZoneMonitor) pre)) 0) post))
         = zones (fst (run (setCertaintyFactor
                     (fst (run (VL53L1XZoneMonitor_ctor interval_ms certainty) pre)) 1) post))"
proof -
  let ?m = "fst (run (VL53L1XZoneMonitor_ctor interval_ms certainty :: 's VL53L1XZoneMonitor) pre)"
  have "list_all wrap_free (zones (VL53L1XZoneMonitor_ctor interval_ms certainty :: 's VL53L1XZoneMonitor))"
    by (simp add: VL53L1XZoneMonitor_ctor_def)
  then have "list_all wrap_free (zones ?m)" by (rule wrap_free_run)
  then have w: "list_all wrap_free (zones (setCertaintyFactor ?m 0))"
    by (simp add: setCertaintyFactor_def)
  have r: "zero_for_one (setCertaintyFactor ?m 0) (setCertaintyFactor ?m 1)"
    by (simp add: zero_for_one_def setCertaintyFactor_def)
  from zero_for_one_run [OF r w, of post]
  have "snd (run (setCertaintyFactor ?m 0) post) = snd (run (setCertaintyFactor ?m 1) post)"
    "zones (fst (run (setCertaintyFactor ?m 0) post)) = zones (fst (run (setCertaintyFactor ?m 1) post))"
    by (simp_all add: zero_for_one_def)
  moreover have "\<not> counter_wraps_unfired
             (fst (evaluate_seq (ZoneObserver_ctor mn mx en ex :: 's ZoneObserver) calls)) d'"
    by (intro wrap_free_not_wraps wrap_free_evaluate_seq wrap_free_ctor)
  ultimately show ?thesis
    using evaluate_zero_one_iff [of z d] by blast
qed

theorem certainty_zero_as_one_witness:
  "\<not> counter_wraps_unfired (ZoneObserver_ctor 100 300 (Some 1) (Some 2) :: 32 ZoneObserver) 250
   \<and> evaluate (ZoneObserver_ctor 100 300 (Some 1) (Some 2) :: 32 ZoneObserver) 250 0
     = evaluate (ZoneObserver_ctor 100 300 (Some 1) (Some 2)) 250 1"
proof -
  let ?z = "ZoneObserver_ctor 100 300 (Some 1) (Some 2) :: 32 ZoneObserver"
  have a: "\<not> counter_wraps_unfired ?z 250"
    by (simp add: counter_wraps_unfired_def ZoneObserver_ctor_def)
  from certainty_zero_as_one [of ?z 250] a have "evaluate ?z 250 0 = evaluate ?z 250 1"
    by blast
  with a show ?thesis by blast
qed

section \<open>Alternation of the callbacks\<close>








section \<open>Rate of the sensor reads\<close>

subsection \<open>Times that are spaced, counted in a window\<close>

lemma spaced_Cons:
  "spaced gap ts \<Longrightarrow> \<forall>u\<in>set ts. t + gap \<le> u \<Longrightarrow> spaced gap (t # ts)"
  by (cases ts) simp_all

lemma spaced_tail: "spaced gap (t # ts) \<Longrightarrow> spaced gap ts"
  by (cases ts) simp_all

lemma spaced_after: "spaced gap (t # ts) \<Longrightarrow> u \<in> set ts \<Longrightarrow> t + gap \<le> u"
proof (induction ts arbitrary: t)
  case Nil
  then show ?case by simp
next
  case (Cons v ts)
  from Cons.prems(1) have tv: "t + gap \<le> v" and sp: "spaced gap (v # ts)" by simp_all
  show ?case
  proof (cases "u = v")
    case True
    with tv show ?thesis by simp
  next
    case False
    with Cons.prems(2) have "u \<in> set ts" by simp
    from Cons.IH [OF sp this] tv show ?thesis by simp
  qed
qed

lemma spaced_window:
  assumes "0 < gap"
  shows "spaced gap ts \<Longrightarrow>
         length (filter (\<lambda>t. lo \<le> t \<and> t \<le> hi) ts) * gap \<le> hi - lo + gap"
proof (induction ts arbitrary: lo)
  case Nil
  then show ?case by simp
next
  case (Cons t ts)
  from Cons.prems have sp: "spaced gap ts" by (rule spaced_tail)
  show ?case
  proof (cases "lo \<le> t \<and> t \<le> hi")
    case False
    with Cons.IH [OF sp, of lo] show ?thesis by auto
  next
    case True
    have later: "t + gap \<le> u" if "u \<in> set ts" for u
      using Cons.prems that by (rule spaced_after)
    have same: "filter (\<lambda>u. lo \<le> u \<and> u \<le> hi) ts = filter (\<lambda>u. t + gap \<le> u \<and> u \<le> hi) ts"
    proof (intro filter_cong refl)
      fix u assume "u \<in> set ts"
      from later [OF this] True show "(lo \<le> u \<and> u \<le> hi) = (t + gap \<le> u \<and> u \<le> hi)"
        by linarith
    qed
    show ?thesis
    proof (cases "t + gap \<le> hi")
      case le: True
      from Cons.IH [OF sp, of "t + gap"]
      have "length (filter (\<lambda>u. t + gap \<le> u \<and> u \<le> hi) ts) * gap \<le> hi - (t + gap) + gap" .
      with le True show ?thesis by (simp add: same)
    next
      case gt: False
      then have "filter (\<lambda>u. t + gap \<le> u \<and> u \<le> hi) ts = []"
        by (auto simp add: filter_empty_conv)
      with True have "length (filter (\<lambda>u. lo \<le> u \<and> u \<le> hi) (t # ts)) = 1"
        by (simp add: same)
      then show ?thesis by simp
    qed
  qed
qed

lemma spaced_window_count:
  assumes "0 < gap" and "spaced gap ts"
  shows "length (filter (\<lambda>t. lo \<le> t \<and> t \<le> lo + len) ts) \<le> ceil_div len gap + 1"
proof -
  let ?n = "length (filter (\<lambda>t. lo \<le> t \<and> t \<le> lo + len) ts)"
  from spaced_window [OF assms, of lo "lo + len"] have "?n * gap \<le> len + gap" by simp
  then have "?n * gap div gap \<le> (len + gap) div gap" by (rule div_le_mono)
  moreover from assms(1) have "(len + gap) div gap = len div gap + 1"
    using div_add_self2 [of gap len] by simp
  ultimately have "?n \<le> len div gap + 1" using assms(1) by simp
  moreover from assms(1) have "len \<le> len + gap - 1" by simp
  then have "len div gap \<le> (len + gap - 1) div gap" by (rule div_le_mono)
  ultimately show ?thesis by (simp add: ceil_div_def)
qed

subsection \<open>The reads of one call\<close>

lemma evaluate_no_read: "filter is_SensorRead (snd (evaluate z d n)) = []"
  by (simp add: evaluate_def Let_def split: option.splits)

lemma evaluate_zones_no_read: "filter is_SensorRead (snd (evaluate_zones zs d n)) = []"
  by (induction zs) (simp_all add: split_beta evaluate_no_read)

lemma read_times_stamped:
  "read_times (map (Pair t) evs) = map (\<lambda>e. t) (filter is_SensorRead evs)"
  by (induction evs) (simp_all add: read_times_def)

lemma performUpdate_reads:
  "filter is_SensorRead (snd (performUpdate m now1 now2 sample)) =
     (case sample of
        Some d \<Rightarrow> if update_interval_ms m \<le> now1 - last_update_time m then [SensorRead d] else []
      | None \<Rightarrow> [])"
  by (simp add: performUpdate_def Let_def split_beta evaluate_zones_no_read split: option.splits)

lemma performUpdate_clock:
  "update_interval_ms (fst (performUpdate m now1 now2 sample)) = update_interval_ms m \<and>
   last_update_time (fst (performUpdate m now1 now2 sample)) =
     (if update_interval_ms m \<le> now1 - last_update_time m then now2 else last_update_time m)"
  by (simp add: performUpdate_def Let_def split_beta split: option.splits)

lemma step_IsObjectInZone:
  "fst (step m (IsObjectInZone i t1 t2 sample)) = fst (performUpdate m (millis t1) (millis t2) sample)"
  "read_times (snd (step m (IsObjectInZone i t1 t2 sample))) =
     read_times (map (Pair t2) (snd (performUpdate m (millis t1) (millis t2) sample)))"
  by (simp_all add: isObjectInZone_def split_beta Let_def read_times_def)

lemma step_interval: "update_interval_ms (fst (step m c)) = update_interval_ms m"
  by (cases c)
     (simp_all add: update_def isObjectInZone_def split_beta Let_def performUpdate_clock
        addZone_def updateZone_def deleteZone_def setCertaintyFactor_def)

lemma step_tick:
  "(last_update_time (fst (step m c)) = last_update_time m \<and> tick_reads m c = [])
   \<or> (\<exists>t1 t2. clock_reads c = [t1, t2] \<and>
         update_interval_ms m \<le> millis t1 - last_update_time m \<and>
         last_update_time (fst (step m c)) = millis t2 \<and>
         (tick_reads m c = [] \<or> tick_reads m c = [t2]))"
proof (cases c)
  case (Update t1 t2 sample)
  then show ?thesis
    by (simp add: tick_reads_def update_def split_beta read_times_stamped
        performUpdate_reads performUpdate_clock split: option.splits)
next
  case (IsObjectInZone i t1 t2 sample)
  then show ?thesis
    by (simp add: tick_reads_def step_IsObjectInZone read_times_stamped
        performUpdate_reads performUpdate_clock del: step.simps split: option.splits)
next
  case (GetDistance t sample)
  then show ?thesis by (simp add: tick_reads_def)
next
  case (AddZone mn mx en ex)
  then show ?thesis by (simp add: tick_reads_def addZone_def read_times_def)
next
  case (UpdateZone i mn mx)
  then show ?thesis by (simp add: tick_reads_def updateZone_def Let_def read_times_def)
next
  case (DeleteZone i)
  then show ?thesis by (simp add: tick_reads_def deleteZone_def read_times_def)
next
  case (SetCertaintyFactor n)
  then show ?thesis by (simp add: tick_reads_def setCertaintyFactor_def read_times_def)
qed

lemma gate_gap:
  assumes "L \<le> t" and "I \<le> millis t - millis L"
  shows "L + unat I \<le> t"
proof -
  from assms(1) have "millis t - millis L = of_nat (t - L)"
    by (simp add: millis_def)
  then have "unat (millis t - millis L) \<le> t - L"
    by (simp add: unat_of_nat)
  moreover from assms(2) have "unat I \<le> unat (millis t - millis L)"
    by (simp add: word_le_nat_alt)
  ultimately show ?thesis using assms(1) by linarith
qed


subsection \<open>The reads of \<^verbatim>\<open>performUpdate\<close> along a trace are spaced\<close>

lemma sorted_skip: "sorted (L # xs @ ys) \<Longrightarrow> sorted (L # ys)"
  by (auto simp add: sorted_append)

lemma tick_times_after:
  "sorted (L # concat (map clock_reads tr)) \<Longrightarrow> last_update_time m = millis L \<Longrightarrow>
   spaced (unat (update_interval_ms m)) (tick_times m tr)
   \<and> (\<forall>t\<in>set (tick_times m tr). L + unat (update_interval_ms m) \<le> t)"
proof (induction tr arbitrary: m L)
  case Nil
  then show ?case by simp
next
  case (Cons c tr)
  let ?m1 = "fst (step m c)"
  let ?I = "unat (update_interval_ms m)"
  have I1: "update_interval_ms ?m1 = update_interval_ms m" by (rule step_interval)
  from step_tick [of m c] show ?case
  proof
    assume a: "last_update_time ?m1 = last_update_time m \<and> tick_reads m c = []"
    from Cons.prems(1) have "sorted (L # concat (map clock_reads tr))"
      using sorted_skip [of L "clock_reads c" "concat (map clock_reads tr)"] by simp
    from Cons.IH [OF this, of ?m1] a Cons.prems(2) show ?thesis by (simp add: I1)
  next
    assume "\<exists>t1 t2. clock_reads c = [t1, t2] \<and>
         update_interval_ms m \<le> millis t1 - last_update_time m \<and>
         last_update_time ?m1 = millis t2 \<and>
         (tick_reads m c = [] \<or> tick_reads m c = [t2])"
    then obtain t1 t2 where cr: "clock_reads c = [t1, t2]"
      and gate: "update_interval_ms m \<le> millis t1 - last_update_time m"
      and last: "last_update_time ?m1 = millis t2"
      and reads: "tick_reads m c = [] \<or> tick_reads m c = [t2]" by blast
    from Cons.prems(1) cr have ord: "L \<le> t1" "t1 \<le> t2"
      and rest: "sorted (t2 # concat (map clock_reads tr))" by simp_all
    from gate Cons.prems(2) ord(1) have gap: "L + ?I \<le> t1" by (simp add: gate_gap)
    from Cons.IH [OF rest last]
    have sp: "spaced ?I (tick_times ?m1 tr)"
      and af: "\<forall>t\<in>set (tick_times ?m1 tr). t2 + ?I \<le> t" by (simp_all add: I1)
    from sp af have sp2: "spaced ?I (t2 # tick_times ?m1 tr)" by (rule spaced_Cons)
    from af ord gap have af2: "\<forall>t\<in>set (t2 # tick_times ?m1 tr). L + ?I \<le> t" by auto
    from reads sp sp2 af af2 ord gap show ?thesis by auto
  qed
qed

lemma tick_times_spaced:
  "sorted (concat (map clock_reads tr)) \<Longrightarrow>
   spaced (unat (update_interval_ms m)) (tick_times m tr)"
proof (induction tr arbitrary: m)
  case Nil
  then show ?case by simp
next
  case (Cons c tr)
  let ?m1 = "fst (step m c)"
  let ?I = "unat (update_interval_ms m)"
  have I1: "update_interval_ms ?m1 = update_interval_ms m" by (rule step_interval)
  from Cons.prems have tl: "sorted (concat (map clock_reads tr))"
    by (simp add: sorted_append)
  from step_tick [of m c] show ?case
  proof
    assume "last_update_time ?m1 = last_update_time m \<and> tick_reads m c = []"
    with Cons.IH [OF tl, of ?m1] show ?thesis by (simp add: I1)
  next
    assume "\<exists>t1 t2. clock_reads c = [t1, t2] \<and>
         update_interval_ms m \<le> millis t1 - last_update_time m \<and>
         last_update_time ?m1 = millis t2 \<and>
         (tick_reads m c = [] \<or> tick_reads m c = [t2])"
    then obtain t1 t2 where cr: "clock_reads c = [t1, t2]"
      and last: "last_update_time ?m1 = millis t2"
      and reads: "tick_reads m c = [] \<or> tick_reads m c = [t2]" by blast
    from Cons.prems cr have rest: "sorted (t2 # concat (map clock_reads tr))" by simp
    from tick_times_after [OF rest last]
    have sp: "spaced ?I (tick_times ?m1 tr)"
      and af: "\<forall>t\<in>set (tick_times ?m1 tr). t2 + ?I \<le> t" by (simp_all add: I1)
    from sp af have "spaced ?I (t2 # tick_times ?m1 tr)" by (rule spaced_Cons)
    with reads sp show ?thesis by auto
  qed
qed

subsection \<open>All reads of a trace\<close>

lemma sensor_reads_in_append:
  "sensor_reads_in lo hi (l1 @ l2) = sensor_reads_in lo hi l1 + sensor_reads_in lo hi l2"
  by (simp add: sensor_reads_in_def)

lemma sensor_reads_in_read_times:
  "sensor_reads_in lo hi log = length (filter (\<lambda>t. lo \<le> t \<and> t \<le> hi) (read_times log))"
  by (induction log) (auto simp add: sensor_reads_in_def read_times_def)

lemma step_reads_bound:
  "sensor_reads_in lo hi (snd (step m c))
     \<le> length (filter (\<lambda>t. lo \<le> t \<and> t \<le> hi) (tick_reads m c))
       + (if is_GetDistance_in lo hi c then 1 else 0)"
proof (cases c)
  case (GetDistance t sample)
  then show ?thesis
    by (simp add: sensor_reads_in_def getDistance_def tick_reads_def split: option.splits)
qed (simp_all add: sensor_reads_in_read_times tick_reads_def del: step.simps)

lemma run_reads_bound:
  "sensor_reads_in lo hi (snd (run m tr))
     \<le> length (filter (\<lambda>t. lo \<le> t \<and> t \<le> hi) (tick_times m tr))
       + getDistance_calls_in lo hi tr"
proof (induction tr arbitrary: m)
  case Nil
  then show ?case by (simp add: sensor_reads_in_def)
next
  case (Cons c tr)
  from Cons.IH [of "fst (step m c)"] step_reads_bound [of lo hi m c]
  show ?case
    by (auto simp add: split_beta sensor_reads_in_append getDistance_calls_in_def
        simp del: step.simps)
qed


text \<open>
  C9 as stated bounds every sensor read of the monitor. \<^verbatim>\<open>getDistance\<close> reads the
  sensor whenever a sample is ready, without looking at the clock: three calls at 0, 20
  and 40 ms, on a monitor with an interval of 50 ms, make three reads in a window of
  length 40, where the bound is \<open>ceil (40 / 50) + 1 = 2\<close>.
\<close>

theorem getDistance_reads_unlimited:
  "monotone_clock [GetDistance 0 (Some 120), GetDistance 20 (Some 121),
                   GetDistance 40 (Some 122) :: 32 word call]
   \<and> sensor_reads_in 0 (0 + 40)
       (snd (run (VL53L1XZoneMonitor_ctor 50 1 :: 32 VL53L1XZoneMonitor)
               [GetDistance 0 (Some 120), GetDistance 20 (Some 121),
                GetDistance 40 (Some 122)])) = 3
   \<and> ceil_div 40 (unat (update_interval_ms (VL53L1XZoneMonitor_ctor 50 1 :: 32 VL53L1XZoneMonitor))) + 1 = 2"
  by (simp add: monotone_clock_def sensor_reads_in_def getDistance_def ceil_div_def
      VL53L1XZoneMonitor_ctor_def)

text \<open>
  C9, amended. For a monitor with \<open>update_interval_ms > 0\<close> in any state, every trace of
  monitor operations under a non-decreasing wall clock (the \<^verbatim>\<open>uint32_t\<close> millisecond
  counter may wrap) and every window of wall-clock time of length \<open>len\<close>: the number of
  sensor reads in the window is at most \<open>ceil (len / update_interval_ms) + 1\<close> plus the
  number of \<^verbatim>\<open>getDistance\<close> calls in the window. The reads made by \<^verbatim>\<open>performUpdate\<close>
  (through \<^verbatim>\<open>update\<close> and \<^verbatim>\<open>isObjectInZone\<close>) are rate limited; those of
  \<^verbatim>\<open>getDistance\<close> are not.
\<close>

theorem tick_rate_limit:
  fixes m :: "('s::len) VL53L1XZoneMonitor"
  assumes "monotone_clock tr" and "0 < update_interval_ms m"
  shows "sensor_reads_in lo (lo + len) (snd (run m tr))
           \<le> ceil_div len (unat (update_interval_ms m)) + 1
             + getDistance_calls_in lo (lo + len) tr"
proof -
  from assms(2) have pos: "0 < unat (update_interval_ms m)" by (simp add: unat_gt_0)
  from assms(1) have "spaced (unat (update_interval_ms m)) (tick_times m tr)"
    unfolding monotone_clock_def by (rule tick_times_spaced)
  from spaced_window_count [OF pos this, of lo len] run_reads_bound [of lo "lo + len" m tr]
  show ?thesis by linarith
qed

theorem tick_rate_limit_witness:
  "monotone_clock [Update 50 50 (Some 150), GetDistance 60 (Some 150), Update 70 70 (Some 150),
                   IsObjectInZone 0 100 101 (Some 150) :: 32 word call]
   \<and> 0 < update_interval_ms (VL53L1XZoneMonitor_ctor 50 1 :: 32 VL53L1XZoneMonitor)
   \<and> sensor_reads_in 50 (50 + 51)
       (snd (run (VL53L1XZoneMonitor_ctor 50 1 :: 32 VL53L1XZoneMonitor)
          [Update 50 50 (Some 150), GetDistance 60 (Some 150), Update 70 70 (Some 150),
           IsObjectInZone 0 100 101 (Some 150)]))
     \<le> ceil_div 51 (unat (update_interval_ms (VL53L1XZoneMonitor_ctor 50 1 :: 32 VL53L1XZoneMonitor))) + 1
       + getDistance_calls_in 50 (50 + 51)
          [Update 50 50 (Some 150), GetDistance 60 (Some 150), Update 70 70 (Some 150),
           IsObjectInZone 0 100 101 (Some 150) :: 32 word call]"
proof -
  let ?tr = "[Update 50 50 (Some 150), GetDistance 60 (Some 150), Update 70 70 (Some 150),
              IsObjectInZone 0 100 101 (Some 150)] :: 32 word call list"
  let ?m = "VL53L1XZoneMonitor_ctor 50 1 :: 32 VL53L1XZoneMonitor"
  have a: "monotone_clock ?tr" by (simp add: monotone_clock_def)
  have b: "0 < update_interval_ms ?m" by (simp add: VL53L1XZoneMonitor_ctor_def)
  from tick_rate_limit [OF a b, of 50 51] a b show ?thesis by blast
qed

section \<open>Hysteresis\<close>

subsection \<open>Maximal runs\<close>

lemma maximal_runs_concat: "concat (maximal_runs P xs) = xs"
  by (induction xs) (auto split: list.splits)

lemma alternating_runs_head:
  assumes "alternating_runs P (r # rs)"
  shows "r \<noteq> [] \<and> list_all (\<lambda>y. P y = P (hd r)) r"
proof (cases rs)
  case Nil
  with assms show ?thesis by simp
next
  case (Cons s ss)
  from assms have "alternating_runs P (r # s # ss)" unfolding Cons .
  then show ?thesis unfolding alternating_runs.simps by blast
qed

lemma alternating_runs_tail:
  assumes "alternating_runs P (r # s # ss)"
  shows "s \<noteq> [] \<and> P (hd r) \<noteq> P (hd s) \<and> alternating_runs P (s # ss)"
  using assms unfolding alternating_runs.simps by blast

lemma alternating_runs_extend:
  assumes "alternating_runs P (r # rs)" and "P x = P (hd r)"
  shows "alternating_runs P ((x # r) # rs)"
proof -
  from alternating_runs_head [OF assms(1)]
  have h: "list_all (\<lambda>y. P y = P (hd r)) r" by blast
  have "list_all (\<lambda>y. P y = P x) r"
    unfolding assms(2) by (rule h)
  then have u: "(x # r) \<noteq> [] \<and> list_all (\<lambda>y. P y = P (hd (x # r))) (x # r)"
    by simp
  show ?thesis
  proof (cases rs)
    case Nil
    from u show ?thesis unfolding Nil alternating_runs.simps by blast
  next
    case (Cons s ss)
    from alternating_runs_tail [OF assms(1) [unfolded Cons]]
    have t: "s \<noteq> []" "P (hd r) \<noteq> P (hd s)" "alternating_runs P (s # ss)" by blast+
    from t(2) assms(2) have "P (hd (x # r)) \<noteq> P (hd s)" by simp
    with u t(1,3) show ?thesis unfolding Cons alternating_runs.simps by blast
  qed
qed

lemma alternating_runs_start:
  assumes "alternating_runs P (r # rs)" and "P x \<noteq> P (hd r)"
  shows "alternating_runs P ([x] # r # rs)"
proof -
  from alternating_runs_head [OF assms(1)] have "r \<noteq> []" by blast
  moreover have "[x] \<noteq> [] \<and> list_all (\<lambda>y. P y = P (hd [x])) [x]" by simp
  moreover from assms(2) have "P (hd [x]) \<noteq> P (hd r)" by simp
  ultimately show ?thesis using assms(1) unfolding alternating_runs.simps by blast
qed

lemma maximal_runs_alternating: "alternating_runs P (maximal_runs P xs)"
proof (induction xs)
  case Nil
  then show ?case by simp
next
  case (Cons x xs)
  show ?case
  proof (cases "maximal_runs P xs")
    case Nil
    then show ?thesis by simp
  next
    case (Cons r rs)
    with Cons.IH have a: "alternating_runs P (r # rs)" by simp
    show ?thesis
    proof (cases "P x = P (hd r)")
      case True
      from alternating_runs_extend [OF a True] Cons True show ?thesis by simp
    next
      case False
      from alternating_runs_start [OF a False] Cons False show ?thesis by simp
    qed
  qed
qed

subsection \<open>A zone fed samples under a fixed certainty\<close>

lemma evaluate_samples_Nil: "evaluate_samples z n [] = (z, [])"
  by (simp add: evaluate_samples_def)

lemma evaluate_samples_Cons:
  "evaluate_samples z n (d # ds) =
     (fst (evaluate_samples (fst (evaluate z d n)) n ds),
      snd (evaluate z d n) @ snd (evaluate_samples (fst (evaluate z d n)) n ds))"
  by (simp add: evaluate_samples_def split_beta)

lemma evaluate_samples_append:
  "evaluate_samples z n (xs @ ys) =
     (fst (evaluate_samples (fst (evaluate_samples z n xs)) n ys),
      snd (evaluate_samples z n xs) @ snd (evaluate_samples (fst (evaluate_samples z n xs)) n ys))"
  by (induction xs arbitrary: z) (simp_all add: evaluate_samples_Nil evaluate_samples_Cons)

lemma evaluate_config:
  "min_distance (fst (evaluate z d n)) = min_distance z"
  "max_distance (fst (evaluate z d n)) = max_distance z"
  "on_enter (fst (evaluate z d n)) = on_enter z"
  "on_exit (fst (evaluate z d n)) = on_exit z"
  by (simp_all add: evaluate_def Let_def)

lemma evaluate_samples_config:
  "min_distance (fst (evaluate_samples z n ds)) = min_distance z \<and>
   max_distance (fst (evaluate_samples z n ds)) = max_distance z \<and>
   on_enter (fst (evaluate_samples z n ds)) = on_enter z \<and>
   on_exit (fst (evaluate_samples z n ds)) = on_exit z"
  by (induction ds arbitrary: z)
     (simp_all add: evaluate_samples_Nil evaluate_samples_Cons evaluate_config)

lemma in_range_evaluate_samples: "in_range (fst (evaluate_samples z n ds)) = in_range z"
  by (simp add: in_range_def fun_eq_iff evaluate_samples_config)

lemma in_range_evaluate: "in_range (fst (evaluate z d n)) = in_range z"
  by (simp add: in_range_def fun_eq_iff evaluate_config)

lemma unat_succ_below: "(x :: 'a::len word) < n \<Longrightarrow> unat (x + 1) = Suc (unat x)"
proof -
  assume "x < n"
  then have "unat x < unat n" by (simp add: word_less_nat_alt)
  moreover have "unat n < 2 ^ LENGTH('a)" by (rule unsigned_less)
  ultimately have "Suc (unat x) < 2 ^ LENGTH('a)" by linarith
  then have "unat x + unat (1 :: 'a word) < 2 ^ LENGTH('a)" by simp
  then have "unat (x + 1) = unat x + unat (1 :: 'a word)"
    by (rule unat_add_lem [THEN iffD1])
  then show ?thesis by simp
qed


lemma less_succ_cases:
  assumes "(x :: 'a::len word) < n"
  shows "(n \<le> x + 1) = (unat n \<le> Suc (unat x))" and "\<not> n \<le> x + 1 \<Longrightarrow> x + 1 < n"
  using unat_succ_below [OF assms] by (simp_all add: word_le_nat_alt word_less_nat_alt)

lemma invocations_simps:
  "on_enter_invocations [] = 0"
  "on_exit_invocations [] = 0"
  "on_enter_invocations (xs @ ys) = on_enter_invocations xs + on_enter_invocations ys"
  "on_exit_invocations (xs @ ys) = on_exit_invocations xs + on_exit_invocations ys"
  "on_enter_invocations (case cb of None \<Rightarrow> [] | Some f \<Rightarrow> [OnEnter f d]) = (if cb = None then 0 else 1)"
  "on_exit_invocations (case cb of None \<Rightarrow> [] | Some f \<Rightarrow> [OnEnter f d]) = 0"
  "on_exit_invocations (case cb of None \<Rightarrow> [] | Some g \<Rightarrow> [OnExit g]) = (if cb = None then 0 else 1)"
  "on_enter_invocations (case cb of None \<Rightarrow> [] | Some g \<Rightarrow> [OnExit g]) = 0"
  by (simp_all add: on_enter_invocations_def on_exit_invocations_def split: option.splits)

subsection \<open>A block of in-range samples\<close>

lemma evaluate_in_range:
  assumes "in_range z d"
  shows "in_zone_count (fst (evaluate z d n)) = in_zone_count z + 1"
    and "out_zone_count (fst (evaluate z d n)) = 0"
    and "object_present (fst (evaluate z d n)) = (object_present z \<or> n \<le> in_zone_count z + 1)"
    and "snd (evaluate z d n) =
           (if n \<le> in_zone_count z + 1 \<and> \<not> object_present z
            then (case on_enter z of None \<Rightarrow> [] | Some f \<Rightarrow> [OnEnter f d]) else [])"
  using assms by (simp_all add: in_range_def evaluate_in)

lemma in_block_resets_out:
  "r \<noteq> [] \<Longrightarrow> list_all (in_range z) r \<Longrightarrow>
   out_zone_count (fst (evaluate_samples z n r)) = 0"
proof (induction r arbitrary: z)
  case Nil
  then show ?case by simp
next
  case (Cons d ds)
  from Cons.prems(2) have d: "in_range z d" and ds: "list_all (in_range z) ds" by simp_all
  show ?case
  proof (cases ds)
    case Nil
    with d show ?thesis
      by (simp add: evaluate_samples_Cons evaluate_samples_Nil evaluate_in_range)
  next
    case (Cons e es)
    then have ne: "ds \<noteq> []" by simp
    from ds have "list_all (in_range (fst (evaluate z d n))) ds"
      by (simp add: in_range_evaluate)
    from Cons.IH [OF ne this] show ?thesis by (simp add: evaluate_samples_Cons)
  qed
qed

lemma in_block_present:
  "object_present z \<Longrightarrow> list_all (in_range z) r \<Longrightarrow>
   snd (evaluate_samples z n r) = [] \<and> object_present (fst (evaluate_samples z n r))"
proof (induction r arbitrary: z)
  case Nil
  then show ?case by (simp add: evaluate_samples_Nil)
next
  case (Cons d ds)
  from Cons.prems(2) have d: "in_range z d" and ds: "list_all (in_range z) ds" by simp_all
  let ?z1 = "fst (evaluate z d n)"
  from d Cons.prems(1) have p1: "object_present ?z1" and e1: "snd (evaluate z d n) = []"
    by (simp_all add: evaluate_in_range)
  from ds have "list_all (in_range ?z1) ds" by (simp add: in_range_evaluate)
  from Cons.IH [OF p1 this] e1 show ?case by (simp add: evaluate_samples_Cons)
qed

lemma in_block_empty:
  "\<not> object_present z \<Longrightarrow> list_all (in_range z) r \<Longrightarrow> in_zone_count z < n \<Longrightarrow>
   object_present (fst (evaluate_samples z n r)) = (unat n \<le> unat (in_zone_count z) + length r)
   \<and> on_enter_invocations (snd (evaluate_samples z n r)) =
       (if unat n \<le> unat (in_zone_count z) + length r \<and> on_enter z \<noteq> None then 1 else 0)
   \<and> on_exit_invocations (snd (evaluate_samples z n r)) = 0"
proof (induction r arbitrary: z)
  case Nil
  from Nil.prems(3) have "\<not> unat n \<le> unat (in_zone_count z)"
    by (simp add: word_less_nat_alt)
  with Nil.prems(1) show ?case by (simp add: evaluate_samples_Nil invocations_simps)
next
  case (Cons d ds)
  from Cons.prems(2) have d: "in_range z d" and ds: "list_all (in_range z) ds" by simp_all
  let ?z1 = "fst (evaluate z d n)"
  let ?c = "in_zone_count z"
  have u: "unat (?c + 1) = Suc (unat ?c)" using Cons.prems(3) by (rule unat_succ_below)
  from ds have ds1: "list_all (in_range ?z1) ds" by (simp add: in_range_evaluate)
  have c1: "in_zone_count ?z1 = ?c + 1" using d by (rule evaluate_in_range)
  show ?case
  proof (cases "n \<le> ?c + 1")
    case True
    then have le: "unat n \<le> Suc (unat ?c)"
      using less_succ_cases(1) [OF Cons.prems(3)] by simp
    from d True Cons.prems(1) have p1: "object_present ?z1"
      and e1: "snd (evaluate z d n) = (case on_enter z of None \<Rightarrow> [] | Some f \<Rightarrow> [OnEnter f d])"
      by (simp_all add: evaluate_in_range)
    from in_block_present [OF p1 ds1, of n]
    have "snd (evaluate_samples ?z1 n ds) = []" "object_present (fst (evaluate_samples ?z1 n ds))"
      by simp_all
    with e1 le show ?thesis
      by (simp add: evaluate_samples_Cons invocations_simps)
  next
    case False
    then have lt: "in_zone_count ?z1 < n"
      using less_succ_cases(2) [OF Cons.prems(3)] c1 by simp
    from False have nle: "\<not> unat n \<le> Suc (unat ?c)"
      using less_succ_cases(1) [OF Cons.prems(3)] by simp
    from d False Cons.prems(1) have p1: "\<not> object_present ?z1"
      and e1: "snd (evaluate z d n) = []"
      by (simp_all add: evaluate_in_range)
    from Cons.IH [OF p1 ds1 lt] e1 u c1 show ?thesis
      by (simp add: evaluate_samples_Cons invocations_simps evaluate_config)
  qed
qed

lemma in_block:
  assumes "list_all (in_range z) r" and "in_zone_count z = 0" and "1 \<le> n"
  shows "on_enter_invocations (snd (evaluate_samples z n r)) =
           (if unat n \<le> length r \<and> \<not> object_present z \<and> on_enter z \<noteq> None then 1 else 0)
       \<and> on_exit_invocations (snd (evaluate_samples z n r)) = 0
       \<and> object_present (fst (evaluate_samples z n r)) = (object_present z \<or> unat n \<le> length r)"
proof (cases "object_present z")
  case True
  from in_block_present [OF True assms(1), of n] True show ?thesis
    by (simp add: invocations_simps)
next
  case False
  from assms(3) have "0 < n" by (simp add: word_le_nat_alt word_less_nat_alt)
  then have "in_zone_count z < n" by (simp add: assms(2))
  from in_block_empty [OF False assms(1) this] False show ?thesis
    by (simp add: assms(2))
qed

subsection \<open>A block of out-of-range samples\<close>

lemma evaluate_out_range:
  assumes "\<not> in_range z d"
  shows "out_zone_count (fst (evaluate z d n)) = out_zone_count z + 1"
    and "in_zone_count (fst (evaluate z d n)) = 0"
    and "object_present (fst (evaluate z d n)) = (object_present z \<and> \<not> n \<le> out_zone_count z + 1)"
    and "snd (evaluate z d n) =
           (if n \<le> out_zone_count z + 1 \<and> object_present z
            then (case on_exit z of None \<Rightarrow> [] | Some g \<Rightarrow> [OnExit g]) else [])"
  using assms by (simp_all add: in_range_def evaluate_out)

lemma out_block_resets_in:
  "r \<noteq> [] \<Longrightarrow> list_all (\<lambda>d. \<not> in_range z d) r \<Longrightarrow>
   in_zone_count (fst (evaluate_samples z n r)) = 0"
proof (induction r arbitrary: z)
  case Nil
  then show ?case by simp
next
  case (Cons d ds)
  from Cons.prems(2) have d: "\<not> in_range z d" and ds: "list_all (\<lambda>d. \<not> in_range z d) ds"
    by simp_all
  show ?case
  proof (cases ds)
    case Nil
    with d show ?thesis
      by (simp add: evaluate_samples_Cons evaluate_samples_Nil evaluate_out_range)
  next
    case (Cons e es)
    then have ne: "ds \<noteq> []" by simp
    from ds have "list_all (\<lambda>d'. \<not> in_range (fst (evaluate z d n)) d') ds"
      by (simp add: in_range_evaluate)
    from Cons.IH [OF ne this] show ?thesis by (simp add: evaluate_samples_Cons)
  qed
qed

lemma out_block_absent:
  "\<not> object_present z \<Longrightarrow> list_all (\<lambda>d. \<not> in_range z d) r \<Longrightarrow>
   snd (evaluate_samples z n r) = [] \<and> \<not> object_present (fst (evaluate_samples z n r))"
proof (induction r arbitrary: z)
  case Nil
  then show ?case by (simp add: evaluate_samples_Nil)
next
  case (Cons d ds)
  from Cons.prems(2) have d: "\<not> in_range z d" and ds: "list_all (\<lambda>d. \<not> in_range z d) ds"
    by simp_all
  let ?z1 = "fst (evaluate z d n)"
  from d Cons.prems(1) have p1: "\<not> object_present ?z1" and e1: "snd (evaluate z d n) = []"
    by (simp_all add: evaluate_out_range)
  from ds have "list_all (\<lambda>d'. \<not> in_range ?z1 d') ds" by (simp add: in_range_evaluate)
  from Cons.IH [OF p1 this] e1 show ?case by (simp add: evaluate_samples_Cons)
qed

lemma out_block_occupied:
  "object_present z \<Longrightarrow> list_all (\<lambda>d. \<not> in_range z d) r \<Longrightarrow> out_zone_count z < n \<Longrightarrow>
   object_present (fst (evaluate_samples z n r)) = (\<not> unat n \<le> unat (out_zone_count z) + length r)
   \<and> on_exit_invocations (snd (evaluate_samples z n r)) =
       (if unat n \<le> unat (out_zone_count z) + length r \<and> on_exit z \<noteq> None then 1 else 0)
   \<and> on_enter_invocations (snd (evaluate_samples z n r)) = 0"
proof (induction r arbitrary: z)
  case Nil
  from Nil.prems(3) have "\<not> unat n \<le> unat (out_zone_count z)"
    by (simp add: word_less_nat_alt)
  with Nil.prems(1) show ?case by (simp add: evaluate_samples_Nil invocations_simps)
next
  case (Cons d ds)
  from Cons.prems(2) have d: "\<not> in_range z d" and ds: "list_all (\<lambda>d. \<not> in_range z d) ds"
    by simp_all
  let ?z1 = "fst (evaluate z d n)"
  let ?c = "out_zone_count z"
  have u: "unat (?c + 1) = Suc (unat ?c)" using Cons.prems(3) by (rule unat_succ_below)
  from ds have ds1: "list_all (\<lambda>d'. \<not> in_range ?z1 d') ds" by (simp add: in_range_evaluate)
  have c1: "out_zone_count ?z1 = ?c + 1" using d by (rule evaluate_out_range)
  show ?case
  proof (cases "n \<le> ?c + 1")
    case True
    then have le: "unat n \<le> Suc (unat ?c)"
      using less_succ_cases(1) [OF Cons.prems(3)] by simp
    from d True Cons.prems(1) have p1: "\<not> object_present ?z1"
      and e1: "snd (evaluate z d n) = (case on_exit z of None \<Rightarrow> [] | Some g \<Rightarrow> [OnExit g])"
      by (simp_all add: evaluate_out_range)
    from out_block_absent [OF p1 ds1, of n]
    have "snd (evaluate_samples ?z1 n ds) = []" "\<not> object_present (fst (evaluate_samples ?z1 n ds))"
      by simp_all
    with e1 le show ?thesis
      by (simp add: evaluate_samples_Cons invocations_simps)
  next
    case False
    then have lt: "out_zone_count ?z1 < n"
      using less_succ_cases(2) [OF Cons.prems(3)] c1 by simp
    from False have nle: "\<not> unat n \<le> Suc (unat ?c)"
      using less_succ_cases(1) [OF Cons.prems(3)] by simp
    from d False Cons.prems(1) have p1: "object_present ?z1"
      and e1: "snd (evaluate z d n) = []"
      by (simp_all add: evaluate_out_range)
    from Cons.IH [OF p1 ds1 lt] e1 u c1 show ?thesis
      by (simp add: evaluate_samples_Cons invocations_simps evaluate_config)
  qed
qed

lemma out_block:
  assumes "list_all (\<lambda>d. \<not> in_range z d) r" and "out_zone_count z = 0" and "1 \<le> n"
  shows "on_exit_invocations (snd (evaluate_samples z n r)) =
           (if unat n \<le> length r \<and> object_present z \<and> on_exit z \<noteq> None then 1 else 0)
       \<and> on_enter_invocations (snd (evaluate_samples z n r)) = 0
       \<and> object_present (fst (evaluate_samples z n r)) = (object_present z \<and> \<not> unat n \<le> length r)"
proof (cases "object_present z")
  case False
  from out_block_absent [OF False assms(1), of n] False show ?thesis
    by (simp add: invocations_simps)
next
  case True
  from assms(3) have "0 < n" by (simp add: word_le_nat_alt word_less_nat_alt)
  then have "out_zone_count z < n" by (simp add: assms(2))
  from out_block_occupied [OF True assms(1) this] True show ?thesis
    by (simp add: assms(2))
qed

subsection \<open>Counting over the runs\<close>

lemma uniform_block:
  assumes "list_all (\<lambda>y. P y = P (hd r)) r"
  shows "P (hd r) \<Longrightarrow> list_all P r" and "\<not> P (hd r) \<Longrightarrow> list_all (\<lambda>y. \<not> P y) r"
  using assms by (simp_all add: list_all_iff)

lemma runs_count:
  "alternating_runs (in_range z) rs \<Longrightarrow> 1 \<le> n \<Longrightarrow>
   (rs \<noteq> [] \<longrightarrow> (if in_range z (hd (hd rs)) then in_zone_count z = 0 else out_zone_count z = 0)) \<Longrightarrow>
   object_present z = (st = Occupied) \<Longrightarrow>
   on_enter_invocations (snd (evaluate_samples z n (concat rs))) =
     (if on_enter z = None then 0 else enter_runs (in_range z) (unat n) st rs)
   \<and> on_exit_invocations (snd (evaluate_samples z n (concat rs))) =
     (if on_exit z = None then 0 else exit_runs (in_range z) (unat n) st rs)"
proof (induction rs arbitrary: z st)
  case Nil
  then show ?case by (simp add: evaluate_samples_Nil invocations_simps)
next
  case (Cons r rs)
  let ?z1 = "fst (evaluate_samples z n r)"
  let ?st1 = "state_after_run (in_range z) (unat n) st r"
  from alternating_runs_head [OF Cons.prems(1)]
  have ne: "r \<noteq> []" and un: "list_all (\<lambda>y. in_range z y = in_range z (hd r)) r" by blast+
  have cfg: "on_enter ?z1 = on_enter z" "on_exit ?z1 = on_exit z" "in_range ?z1 = in_range z"
    by (simp_all add: evaluate_samples_config in_range_evaluate_samples)
  have alt: "alternating_runs (in_range ?z1) rs"
  proof (cases rs)
    case Nil
    then show ?thesis by simp
  next
    case (Cons s ss)
    from alternating_runs_tail [OF Cons.prems(1) [unfolded Cons]]
    show ?thesis unfolding Cons cfg by blast
  qed
  have flip: "in_range z (hd (hd rs)) \<noteq> in_range z (hd r)" if "rs \<noteq> []"
  proof -
    from that obtain s ss where rs: "rs = s # ss" by (cases rs) auto
    from alternating_runs_tail [OF Cons.prems(1) [unfolded rs]]
    show ?thesis unfolding rs by simp
  qed
  have split:
    "on_enter_invocations (snd (evaluate_samples z n (concat (r # rs)))) =
       on_enter_invocations (snd (evaluate_samples z n r))
       + on_enter_invocations (snd (evaluate_samples ?z1 n (concat rs)))"
    "on_exit_invocations (snd (evaluate_samples z n (concat (r # rs)))) =
       on_exit_invocations (snd (evaluate_samples z n r))
       + on_exit_invocations (snd (evaluate_samples ?z1 n (concat rs)))"
    by (simp_all add: evaluate_samples_append invocations_simps)
  have emp: "(st = Empty) = (\<not> object_present z)"
    using Cons.prems(4) by (cases st) simp_all
  show ?case
  proof (cases "in_range z (hd r)")
    case True
    from uniform_block(1) [OF un True] have all_in: "list_all (in_range z) r" .
    from Cons.prems(3) True have c0: "in_zone_count z = 0" by simp
    from in_block [OF all_in c0 Cons.prems(2)]
    have b: "on_enter_invocations (snd (evaluate_samples z n r)) =
               (if unat n \<le> length r \<and> \<not> object_present z \<and> on_enter z \<noteq> None then 1 else 0)"
      "on_exit_invocations (snd (evaluate_samples z n r)) = 0"
      "object_present ?z1 = (object_present z \<or> unat n \<le> length r)" by simp_all
    have st1: "object_present ?z1 = (?st1 = Occupied)"
      using True Cons.prems(4) emp b(3) by (cases st) (simp_all add: state_after_run_def)
    have o0: "out_zone_count ?z1 = 0" using ne all_in by (rule in_block_resets_out)
    have start: "rs \<noteq> [] \<longrightarrow>
        (if in_range ?z1 (hd (hd rs)) then in_zone_count ?z1 = 0 else out_zone_count ?z1 = 0)"
      using flip True o0 by (simp add: cfg)
    from Cons.IH [OF alt Cons.prems(2) start st1] b True emp show ?thesis
      unfolding split by (simp add: cfg)
  next
    case False
    from uniform_block(2) [OF un False] have all_out: "list_all (\<lambda>d. \<not> in_range z d) r" .
    from Cons.prems(3) False have c0: "out_zone_count z = 0" by simp
    from out_block [OF all_out c0 Cons.prems(2)]
    have b: "on_exit_invocations (snd (evaluate_samples z n r)) =
               (if unat n \<le> length r \<and> object_present z \<and> on_exit z \<noteq> None then 1 else 0)"
      "on_enter_invocations (snd (evaluate_samples z n r)) = 0"
      "object_present ?z1 = (object_present z \<and> \<not> unat n \<le> length r)" by simp_all
    have st1: "object_present ?z1 = (?st1 = Occupied)"
      using False Cons.prems(4) emp b(3) by (cases st) (simp_all add: state_after_run_def)
    have i0: "in_zone_count ?z1 = 0" using ne all_out by (rule out_block_resets_in)
    have start: "rs \<noteq> [] \<longrightarrow>
        (if in_range ?z1 (hd (hd rs)) then in_zone_count ?z1 = 0 else out_zone_count ?z1 = 0)"
      using flip False i0 by (simp add: cfg)
    from Cons.IH [OF alt Cons.prems(2) start st1] b False Cons.prems(4) show ?thesis
      unfolding split by (simp add: cfg)
  qed
qed

lemma in_range_ctor: "in_range (ZoneObserver_ctor mn mx en ex) = in_window mn mx"
  by (simp add: in_range_def in_window_def ZoneObserver_ctor_def fun_eq_iff)

text \<open>
  C2 as stated covers every zone. A zone constructed without callbacks (both default to
  \<^verbatim>\<open>nullptr\<close>), window 100..300, certainty 1, fed the single sample 150: there is one
  run of in-range samples of length at least 1 whose preceding state is Empty, and no
  \<^verbatim>\<open>on_enter\<close> invocation.
\<close>

theorem no_callback_no_invocation:
  "on_enter_invocations
     (snd (evaluate_samples (ZoneObserver_ctor 100 300 None None :: 32 ZoneObserver) 1 [150])) = 0
   \<and> enter_runs (in_window 100 300) (unat (1 :: 32 word)) Empty
       (maximal_runs (in_window 100 300) [150]) = 1"
  by (simp add: evaluate_samples_def evaluate_def ZoneObserver_ctor_def in_window_def
      on_enter_invocations_def)

text \<open>
  C2, amended. For every freshly constructed zone (Empty, both counters 0), every finite
  sequence of samples fed to \<^verbatim>\<open>evaluate\<close> and every fixed certainty \<open>n \<ge> 1\<close>: if
  \<^verbatim>\<open>on_enter\<close> is set, the number of \<^verbatim>\<open>on_enter\<close> invocations is the number of maximal
  runs of at least \<open>n\<close> consecutive in-range samples whose preceding state, in the
  specification's state machine started in Empty, is Empty, and if it is not set there
  is no invocation; dually, if \<^verbatim>\<open>on_exit\<close> is set, the number of \<^verbatim>\<open>on_exit\<close>
  invocations is the number of maximal runs of at least \<open>n\<close> consecutive out-of-range
  samples whose preceding state is Occupied, and if it is not set there is none.
\<close>

theorem hysteresis:
  fixes n :: "('s::len) word"
  assumes "1 \<le> n"
  shows "on_enter_invocations
           (snd (evaluate_samples (ZoneObserver_ctor mn mx en ex :: 's ZoneObserver) n ds)) =
           (if en = None then 0
            else enter_runs (in_window mn mx) (unat n) Empty (maximal_runs (in_window mn mx) ds))
       \<and> on_exit_invocations
           (snd (evaluate_samples (ZoneObserver_ctor mn mx en ex :: 's ZoneObserver) n ds)) =
           (if ex = None then 0
            else exit_runs (in_window mn mx) (unat n) Empty (maximal_runs (in_window mn mx) ds))"
proof -
  let ?z = "ZoneObserver_ctor mn mx en ex :: 's ZoneObserver"
  let ?rs = "maximal_runs (in_range ?z) ds"
  have alt: "alternating_runs (in_range ?z) ?rs" by (rule maximal_runs_alternating)
  have start: "?rs \<noteq> [] \<longrightarrow>
      (if in_range ?z (hd (hd ?rs)) then in_zone_count ?z = 0 else out_zone_count ?z = 0)"
    by (simp add: ZoneObserver_ctor_def)
  have st: "object_present ?z = (Empty = Occupied)" by (simp add: ZoneObserver_ctor_def)
  have cb: "on_enter ?z = en" "on_exit ?z = ex" by (simp_all add: ZoneObserver_ctor_def)
  from runs_count [OF alt assms start st] show ?thesis
    unfolding maximal_runs_concat cb in_range_ctor .
qed

theorem hysteresis_witness:
  "(1 :: 32 word) \<le> 2
   \<and> on_enter_invocations
       (snd (evaluate_samples (ZoneObserver_ctor 100 300 (Some 10) (Some 20) :: 32 ZoneObserver) 2
               [150, 150, 400, 400])) = 1
   \<and> on_exit_invocations
       (snd (evaluate_samples (ZoneObserver_ctor 100 300 (Some 10) (Some 20) :: 32 ZoneObserver) 2
               [150, 150, 400, 400])) = 1
   \<and> maximal_runs (in_window 100 300) [150, 150, 400, 400] = [[150, 150], [400, 400]]
   \<and> (1 :: 32 word) \<le> 1
   \<and> on_enter_invocations
       (snd (evaluate_samples (ZoneObserver_ctor 100 300 (Some 10) None :: 32 ZoneObserver) 1
               [150, 400, 150])) = 2
   \<and> maximal_runs (in_window 100 300) [150, 400, 150] = [[150], [400], [150]]"
proof -
  let ?P = "in_window 100 300"
  have h2: "(1 :: 32 word) \<le> 2" and h1: "(1 :: 32 word) \<le> 1" by simp_all
  have r: "maximal_runs ?P [150, 150, 400, 400] = [[150, 150], [400, 400]]"
    by (simp add: in_window_def)
  have e: "enter_runs ?P (unat (2 :: 32 word)) Empty [[150, 150], [400, 400]] = 1"
    by (simp add: in_window_def state_after_run_def)
  have x: "exit_runs ?P (unat (2 :: 32 word)) Empty [[150, 150], [400, 400]] = 1"
    by (simp add: in_window_def state_after_run_def)
  have r': "maximal_runs ?P [150, 400, 150] = [[150], [400], [150]]"
    by (simp add: in_window_def)
  have e': "enter_runs ?P (unat (1 :: 32 word)) Empty [[150], [400], [150]] = 2"
    by (simp add: in_window_def state_after_run_def)
  from hysteresis [OF h2, of 100 300 "Some 10" "Some 20" "[150, 150, 400, 400]"] r e x
  have a: "on_enter_invocations
       (snd (evaluate_samples (ZoneObserver_ctor 100 300 (Some 10) (Some 20) :: 32 ZoneObserver) 2
               [150, 150, 400, 400])) = 1"
    "on_exit_invocations
       (snd (evaluate_samples (ZoneObserver_ctor 100 300 (Some 10) (Some 20) :: 32 ZoneObserver) 2
               [150, 150, 400, 400])) = 1"
    by simp_all
  from hysteresis [OF h1, of 100 300 "Some 10" None "[150, 400, 150]"] r' e'
  have b: "on_enter_invocations
       (snd (evaluate_samples (ZoneObserver_ctor 100 300 (Some 10) None :: 32 ZoneObserver) 1
               [150, 400, 150])) = 2"
    by simp
  from a b r r' h1 h2 show ?thesis by blast
qed

end
